theory Spec2Isabelle
  imports Main
begin

section \<open>Errors and primitive values\<close>

text \<open>
  Every \<^verbatim>\<open>throw\<close> of \<^verbatim>\<open>archive.hpp\<close>, and every place where the C++ has no defined
  behaviour (a store past the end of the write buffer, an index outside a vector), is a
  value of this type.
\<close>

datatype error =
    UnregisteredPolymorphic string
  | NotDefaultConstructible string
  | CastFailure
  | StreamFailure
  | FormatMismatch
  | BufferOverrun
  | LengthError
  | BadReference
  | OutOfFuel

text \<open>
  Streams are sequences of \<^verbatim>\<open>char\<close>, as \<^verbatim>\<open>std::ostream::write\<close> and
  \<^verbatim>\<open>std::istream::read\<close> see them. A primitive of \<open>n\<close> bytes is held as its unsigned value
  below \<open>256 ^ n\<close>; its native representation is the little-endian one the format fixes.
\<close>

fun le_bytes :: "nat \<Rightarrow> nat \<Rightarrow> string" where
  "le_bytes 0 v = []"
| "le_bytes (Suc n) v = char_of (v mod 256) # le_bytes n (v div 256)"

fun le_value :: "string \<Rightarrow> nat" where
  "le_value [] = 0"
| "le_value (c # cs) = of_char c + 256 * le_value cs"

text \<open>The primitive kinds of the archive contract, each with its \<^verbatim>\<open>sizeof\<close>.\<close>

datatype prim =
    PDouble nat
  | PInt nat
  | PShort nat
  | PLong nat
  | PSize nat
  | PUChar nat
  | PBool bool

fun sizeof :: "prim \<Rightarrow> nat" where
  "sizeof (PDouble _) = 8"
| "sizeof (PInt _) = 4"
| "sizeof (PShort _) = 2"
| "sizeof (PLong _) = 8"
| "sizeof (PSize _) = 8"
| "sizeof (PUChar _) = 1"
| "sizeof (PBool _) = 1"

fun prim_value :: "prim \<Rightarrow> nat" where
  "prim_value (PDouble v) = v"
| "prim_value (PInt v) = v"
| "prim_value (PShort v) = v"
| "prim_value (PLong v) = v"
| "prim_value (PSize v) = v"
| "prim_value (PUChar v) = v"
| "prim_value (PBool b) = (if b then 1 else 0)"

definition raw_bytes :: "prim \<Rightarrow> string" where
  "raw_bytes x = le_bytes (sizeof x) (prim_value x)"

text \<open>Conversions of the C++: \<^verbatim>\<open>int len = str.length()\<close> and \<^verbatim>\<open>long len = strlen (str)\<close>.\<close>

definition int_of_size :: "nat \<Rightarrow> nat" where
  "int_of_size n = n mod 2 ^ 32"

definition signed32 :: "nat \<Rightarrow> int" where
  "signed32 v = (if v mod 2 ^ 32 < 2 ^ 31 then int (v mod 2 ^ 32) else int (v mod 2 ^ 32) - 2 ^ 32)"

definition long_of_int :: "int \<Rightarrow> nat" where
  "long_of_int i = nat (i mod 2 ^ 64)"

definition signed64 :: "nat \<Rightarrow> int" where
  "signed64 v = (if v mod 2 ^ 64 < 2 ^ 63 then int (v mod 2 ^ 64) else int (v mod 2 ^ 64) - 2 ^ 64)"

definition strlen :: "string \<Rightarrow> nat" where
  "strlen s = length (takeWhile (\<lambda>c. c \<noteq> CHR 0x00) s)"

section \<open>The streams\<close>

text \<open>
  A \<^verbatim>\<open>std::ostream\<close>: the characters it has received, and whether it is still good. The
  archive sets no exception mask, so a failed write throws nothing.
\<close>

record ostream =
  received :: string
  badbit :: bool

text \<open>
  \<^verbatim>\<open>std::ostream::write (s, n)\<close>. A stream that is not good receives nothing. On a good
  stream the first \<open>n\<close> characters of \<open>s\<close> are received; for a negative \<open>n\<close> the stream
  buffer accepts no character, which is not \<open>n\<close> characters, and \<^verbatim>\<open>badbit\<close> is set.
\<close>

definition stream_write :: "string \<Rightarrow> int \<Rightarrow> ostream \<Rightarrow> ostream" where
  "stream_write s n os =
     (if badbit os then os
      else if n < 0 then os\<lparr>badbit := True\<rparr>
      else os\<lparr>received := received os @ take (nat n) s\<rparr>)"

text \<open>
  A \<^verbatim>\<open>std::istream\<close>: what is left to read, and the two state bits that input sets. No
  exception mask is set by the archive, so a failed extraction throws nothing.
\<close>

record istream =
  chars :: string
  eofbit :: bool
  failbit :: bool

text \<open>A \<^verbatim>\<open>std::istringstream\<close> over a sequence of characters, freshly opened.\<close>

definition istringstream :: "string \<Rightarrow> istream" where
  "istringstream s = \<lparr>chars = s, eofbit = False, failbit = False\<rparr>"

text \<open>
  \<^verbatim>\<open>std::istream::read (s, n)\<close>, as the characters stored at the front of \<open>s\<close>. A stream
  that is not good fails and stores nothing; a stream that holds fewer than \<open>n\<close> characters
  stores those it holds and sets both bits.
\<close>

definition stream_read :: "nat \<Rightarrow> istream \<Rightarrow> string \<times> istream" where
  "stream_read n s =
     (if eofbit s \<or> failbit s then ([], s\<lparr>failbit := True\<rparr>)
      else if n \<le> length (chars s) then (take n (chars s), s\<lparr>chars := drop n (chars s)\<rparr>)
      else (chars s, s\<lparr>chars := [], eofbit := True, failbit := True\<rparr>))"

text \<open>The array \<open>old\<close> after \<open>got\<close> has been stored at its front.\<close>

definition stored_over :: "string \<Rightarrow> string \<Rightarrow> string" where
  "stored_over got old = got @ drop (length got) old"

section \<open>BinaryOutArchive\<close>

definition BUFFERSIZE :: nat where
  "BUFFERSIZE = 1024"

text \<open>\<^verbatim>\<open>size_t\<close> arithmetic wraps at \<open>2 ^ 64\<close>.\<close>

definition size_sub :: "nat \<Rightarrow> nat \<Rightarrow> nat" where
  "size_sub a b = (a + 2 ^ 64 - b mod 2 ^ 64) mod 2 ^ 64"

definition size_add :: "nat \<Rightarrow> nat \<Rightarrow> nat" where
  "size_add a b = (a + b) mod 2 ^ 64"

record BinaryOutArchive =
  buffer :: string
  ptr :: nat
  fout :: ostream

text \<open>The members after construction, over a stream that is good and has received nothing.\<close>

definition BinaryOutArchive_init :: BinaryOutArchive where
  "BinaryOutArchive_init =
     \<lparr>buffer = replicate BUFFERSIZE (CHR 0x00), ptr = 0,
      fout = \<lparr>received = [], badbit = False\<rparr>\<rparr>"

text \<open>
  \<^verbatim>\<open>FlushBuffer\<close>: when \<^verbatim>\<open>ptr > 0\<close>, \<^verbatim>\<open>fout->write(&buffer[0], ptr)\<close> and \<^verbatim>\<open>ptr = 0\<close>.
  Reading more than the buffer holds is \<open>BufferOverrun\<close>.
\<close>

definition FlushBuffer :: "BinaryOutArchive \<Rightarrow> error + BinaryOutArchive" where
  "FlushBuffer a =
     (if ptr a > 0 then
        (if ptr a \<le> length (buffer a)
         then Inr (a\<lparr>fout := stream_write (buffer a) (int (ptr a)) (fout a), ptr := 0\<rparr>)
         else Inl BufferOverrun)
      else Inr a)"

text \<open>
  \<^verbatim>\<open>*reinterpret_cast<T*>(&buffer[off]) = x\<close>: the bytes of \<open>x\<close> over the buffer at \<open>off\<close>;
  a store that does not fit is \<open>BufferOverrun\<close>.
\<close>

definition store :: "string \<Rightarrow> nat \<Rightarrow> string \<Rightarrow> error + string" where
  "store buf off x =
     (if off + length x \<le> length buf
      then Inr (take off buf @ x @ drop (off + length x) buf)
      else Inl BufferOverrun)"

text \<open>
  \<^verbatim>\<open>Write<T> (x)\<close>, with \<open>x\<close> given by its \<^verbatim>\<open>sizeof(T)\<close> bytes. The comparison
  \<^verbatim>\<open>ptr > BUFFERSIZE-sizeof(T)\<close> is one of \<^verbatim>\<open>size_t\<close>.
\<close>

definition Write :: "string \<Rightarrow> BinaryOutArchive \<Rightarrow> error + BinaryOutArchive" where
  "Write x a =
     (if ptr a > size_sub BUFFERSIZE (length x) then
        (if ptr a \<le> length (buffer a) then
           (case store (buffer a) 0 x of
              Inl e \<Rightarrow> Inl e
            | Inr b \<Rightarrow> Inr (a\<lparr>fout := stream_write (buffer a) (int (ptr a)) (fout a),
                               buffer := b, ptr := length x\<rparr>))
         else Inl BufferOverrun)
      else
        (case store (buffer a) (ptr a) x of
           Inl e \<Rightarrow> Inl e
         | Inr b \<Rightarrow> Inr (a\<lparr>buffer := b, ptr := size_add (ptr a) (length x)\<rparr>)))"

text \<open>The overrides of \<^verbatim>\<open>operator &\<close> for the primitive kinds: \<^verbatim>\<open>return Write(x)\<close>.\<close>

definition write_prim :: "prim \<Rightarrow> BinaryOutArchive \<Rightarrow> error + BinaryOutArchive" where
  "write_prim x a = Write (raw_bytes x) a"

text \<open>
  \<^verbatim>\<open>operator & (std::string & str)\<close>: \<^verbatim>\<open>int len = str.length(); (*this) & len; FlushBuffer();
  if(len) fout->write (&str[0], len);\<close>
\<close>

definition write_string :: "string \<Rightarrow> BinaryOutArchive \<Rightarrow> error + BinaryOutArchive" where
  "write_string str a =
     (let len = int_of_size (length str) in
      case write_prim (PInt len) a of
        Inl e \<Rightarrow> Inl e
      | Inr a1 \<Rightarrow>
          (case FlushBuffer a1 of
             Inl e \<Rightarrow> Inl e
           | Inr a2 \<Rightarrow>
               Inr (if len \<noteq> 0 then a2\<lparr>fout := stream_write str (signed32 len) (fout a2)\<rparr>
                    else a2)))"

text \<open>
  \<^verbatim>\<open>operator & (char *& str)\<close>: \<^verbatim>\<open>long len = str ? strlen (str) : -1; (*this) & len;
  FlushBuffer(); if(len > 0) fout->write (&str[0], len);\<close>. A \<^verbatim>\<open>char*\<close> that is not null is
  given by the characters of the array it points to.
\<close>

definition cstring_len :: "string option \<Rightarrow> nat" where
  "cstring_len str = (case str of None \<Rightarrow> long_of_int (- 1) | Some s \<Rightarrow> strlen s mod 2 ^ 64)"

definition cstring_chars :: "string option \<Rightarrow> string" where
  "cstring_chars str = (case str of None \<Rightarrow> [] | Some s \<Rightarrow> s)"

definition write_cstring :: "string option \<Rightarrow> BinaryOutArchive \<Rightarrow> error + BinaryOutArchive" where
  "write_cstring str a =
     (let len = cstring_len str in
      case write_prim (PLong len) a of
        Inl e \<Rightarrow> Inl e
      | Inr a1 \<Rightarrow>
          (case FlushBuffer a1 of
             Inl e \<Rightarrow> Inl e
           | Inr a2 \<Rightarrow>
               Inr (if signed64 len > 0
                    then a2\<lparr>fout := stream_write (cstring_chars str) (signed64 len) (fout a2)\<rparr>
                    else a2)))"

text \<open>A session of a writer: the values transferred, in order, then the destructor.\<close>

datatype item = Prim prim | String string | CString "string option"

fun transfer :: "item \<Rightarrow> BinaryOutArchive \<Rightarrow> error + BinaryOutArchive" where
  "transfer (Prim x) a = write_prim x a"
| "transfer (String s) a = write_string s a"
| "transfer (CString s) a = write_cstring s a"

fun transfer_all :: "item list \<Rightarrow> BinaryOutArchive \<Rightarrow> error + BinaryOutArchive" where
  "transfer_all [] a = Inr a"
| "transfer_all (x # xs) a =
     (case transfer x a of Inl e \<Rightarrow> Inl e | Inr a' \<Rightarrow> transfer_all xs a')"

text \<open>\<^verbatim>\<open>~BinaryOutArchive () { FlushBuffer(); }\<close>\<close>

definition destroy :: "BinaryOutArchive \<Rightarrow> error + BinaryOutArchive" where
  "destroy a = FlushBuffer a"

definition session :: "item list \<Rightarrow> BinaryOutArchive \<Rightarrow> error + BinaryOutArchive" where
  "session xs a = (case transfer_all xs a of Inl e \<Rightarrow> Inl e | Inr a' \<Rightarrow> destroy a')"

subsection \<open>The unbuffered writer of the specification\<close>

text \<open>
  The binary format as the specification words it. A primitive is its raw native
  representation. A string is a signed 32-bit count of bytes, then the bytes. An optional
  C-string is a signed 64-bit count, \<open>-1\<close> for null; otherwise the bytes without the
  trailing NUL. A signed count of \<open>n\<close> bytes is in two's complement.
\<close>

definition signed_count :: "nat \<Rightarrow> int \<Rightarrow> string" where
  "signed_count n i = le_bytes n (nat (i mod 256 ^ n))"

text \<open>The characters of a C-string: those before the first NUL of its array.\<close>

definition c_str :: "string \<Rightarrow> string" where
  "c_str s = takeWhile (\<lambda>c. c \<noteq> CHR 0x00) s"

fun unbuffered :: "item \<Rightarrow> string" where
  "unbuffered (Prim x) = raw_bytes x"
| "unbuffered (String s) = signed_count 4 (int (length s)) @ s"
| "unbuffered (CString None) = signed_count 8 (- 1)"
| "unbuffered (CString (Some s)) = signed_count 8 (int (length (c_str s))) @ c_str s"

definition unbuffered_all :: "item list \<Rightarrow> string" where
  "unbuffered_all xs = concat (map unbuffered xs)"

text \<open>
  The counts that the format can hold: a string shorter than \<open>2 ^ 31\<close> characters, a
  C-string shorter than \<open>2 ^ 63\<close>.
\<close>

fun fits :: "item \<Rightarrow> bool" where
  "fits (Prim x) = True"
| "fits (String s) = (length s < 2 ^ 31)"
| "fits (CString None) = True"
| "fits (CString (Some s)) = (length (c_str s) < 2 ^ 63)"

text \<open>The invariant of the write buffer.\<close>

definition buffer_inv :: "BinaryOutArchive \<Rightarrow> bool" where
  "buffer_inv a \<longleftrightarrow> ptr a \<le> BUFFERSIZE \<and> length (buffer a) = BUFFERSIZE"

text \<open>What has been written so far, flushed or not.\<close>

definition written :: "BinaryOutArchive \<Rightarrow> string" where
  "written a = received (fout a) @ take (ptr a) (buffer a)"

text \<open>
  What the stream holds or will hold: all that has been written while the stream is good,
  what it has received once it is not.
\<close>

definition reached :: "BinaryOutArchive \<Rightarrow> string" where
  "reached a = (if badbit (fout a) then received (fout a) else written a)"

subsection \<open>The buffer never loses a byte\<close>

lemma length_le_bytes [simp]: "length (le_bytes n v) = n"
  by (induction n arbitrary: v) auto

lemma length_raw_bytes: "length (raw_bytes x) = sizeof x"
  by (simp add: raw_bytes_def)

lemma sizeof_le: "sizeof x \<le> 8"
  by (cases x) simp_all

lemma size_sub_small:
  assumes "n \<le> BUFFERSIZE"
  shows "size_sub BUFFERSIZE n = BUFFERSIZE - n"
proof -
  have "n < 2 ^ 64"
    using assms by (simp add: BUFFERSIZE_def)
  then have n: "n mod 2 ^ 64 = n"
    by (rule mod_less)
  have "BUFFERSIZE + 2 ^ 64 - n = (BUFFERSIZE - n) + 2 ^ 64"
    using assms by simp
  then have "size_sub BUFFERSIZE n = ((BUFFERSIZE - n) + 2 ^ 64) mod 2 ^ 64"
    unfolding size_sub_def n by (rule arg_cong)
  also have "\<dots> = (BUFFERSIZE - n) mod 2 ^ 64"
    by (rule mod_add_self2)
  also have "\<dots> = BUFFERSIZE - n"
    by (rule mod_less) (simp add: BUFFERSIZE_def)
  finally show ?thesis .
qed

lemma Write_ok:
  assumes "buffer_inv a" "length x \<le> BUFFERSIZE"
  shows "\<exists>a'. Write x a = Inr a' \<and> buffer_inv a' \<and> badbit (fout a') = badbit (fout a) \<and>
           (if badbit (fout a) then received (fout a') = received (fout a)
            else written a' = written a @ x)"
proof (cases "ptr a > BUFFERSIZE - length x")
  case True
  then show ?thesis
    using assms
    by (simp add: Write_def buffer_inv_def written_def store_def size_sub_small
        stream_write_def)
next
  case False
  then have le: "ptr a + length x \<le> BUFFERSIZE"
    using assms by simp
  then have "size_add (ptr a) (length x) = ptr a + length x"
    by (simp add: size_add_def BUFFERSIZE_def)
  with False le show ?thesis
    using assms
    by (simp add: Write_def buffer_inv_def written_def store_def size_sub_small)
qed

lemma Flush_ok:
  assumes "buffer_inv a"
  shows "\<exists>a'. FlushBuffer a = Inr a' \<and> buffer_inv a' \<and> ptr a' = 0 \<and>
           badbit (fout a') = badbit (fout a) \<and>
           (if badbit (fout a) then received (fout a') = received (fout a)
            else written a' = written a)"
  using assms
  by (auto simp: FlushBuffer_def buffer_inv_def written_def stream_write_def)

lemma write_prim_ok:
  assumes "buffer_inv a"
  shows "\<exists>a'. write_prim x a = Inr a' \<and> buffer_inv a' \<and> badbit (fout a') = badbit (fout a) \<and>
           (if badbit (fout a) then received (fout a') = received (fout a)
            else written a' = written a @ raw_bytes x)"
proof -
  have "length (raw_bytes x) \<le> BUFFERSIZE"
    using sizeof_le [of x] by (simp add: length_raw_bytes BUFFERSIZE_def)
  from Write_ok [OF assms this] show ?thesis
    by (simp add: write_prim_def)
qed

text \<open>The length prefix of a string operator, up to the write of the payload.\<close>

lemma prefix_flushed:
  assumes "buffer_inv a"
  shows "\<exists>a1 a2. write_prim x a = Inr a1 \<and> FlushBuffer a1 = Inr a2 \<and> buffer_inv a2 \<and>
           ptr a2 = 0 \<and> badbit (fout a2) = badbit (fout a) \<and>
           (if badbit (fout a) then received (fout a2) = received (fout a)
            else received (fout a2) = written a @ raw_bytes x)"
proof -
  obtain a1 where a1: "write_prim x a = Inr a1" "buffer_inv a1"
      "badbit (fout a1) = badbit (fout a)"
      "if badbit (fout a) then received (fout a1) = received (fout a)
       else written a1 = written a @ raw_bytes x"
    using write_prim_ok [OF assms] by blast
  obtain a2 where a2: "FlushBuffer a1 = Inr a2" "buffer_inv a2" "ptr a2 = 0"
      "badbit (fout a2) = badbit (fout a1)"
      "if badbit (fout a1) then received (fout a2) = received (fout a1)
       else written a2 = written a1"
    using Flush_ok [OF a1(2)] by blast
  have "written a2 = received (fout a2)"
    using a2(3) by (simp add: written_def)
  with a1 a2 show ?thesis
    by (intro exI [of _ a1] exI [of _ a2]) (auto split: if_splits)
qed

lemma signed32_short: "n < 2 ^ 31 \<Longrightarrow> signed32 (int_of_size n) = int n"
  by (simp add: signed32_def int_of_size_def)

lemma int_of_size_short: "n < 2 ^ 31 \<Longrightarrow> int_of_size n = n"
  by (simp add: int_of_size_def)

lemma signed32_nonneg: "n < 2 ^ 31 \<Longrightarrow> signed32 n = int n"
  by (simp add: signed32_def)

lemma signed_count_nat: "signed_count n (int k) = le_bytes n (k mod 256 ^ n)"
proof -
  have "int k mod 256 ^ n = int (k mod 256 ^ n)"
    by (simp add: zmod_int)
  then show ?thesis
    by (simp add: signed_count_def)
qed

lemma le_bytes_mod: "le_bytes n (v mod 256 ^ n) = le_bytes n v"
proof (induction n arbitrary: v)
  case 0
  then show ?case by simp
next
  case (Suc n)
  have 1: "v mod (256 * 256 ^ n) mod 256 = v mod 256"
    by (simp add: mod_mod_cancel)
  have "v mod (256 * 256 ^ n) div 256 = v div 256 mod 256 ^ n"
    by (simp add: mod_mult2_eq)
  with Suc [of "v div 256"] 1 show ?case
    by simp
qed

lemma le_bytes_mod_4: "le_bytes 4 (v mod 4294967296) = le_bytes 4 v"
  using le_bytes_mod [of 4 v] by simp

lemma le_bytes_mod_8: "le_bytes 8 (v mod 18446744073709551616) = le_bytes 8 v"
  using le_bytes_mod [of 8 v] by simp

lemma le_bytes_4:
  "le_bytes 4 v =
     [char_of (v mod 256), char_of (v div 256 mod 256), char_of (v div 256 div 256 mod 256),
      char_of (v div 256 div 256 div 256 mod 256)]"
proof -
  have "(4 :: nat) = Suc (Suc (Suc (Suc 0)))" by simp
  then show ?thesis by (simp only: le_bytes.simps)
qed

lemma le_bytes_8:
  "le_bytes 8 v = le_bytes 4 v @ le_bytes 4 (v div 256 div 256 div 256 div 256)"
proof -
  have "(8 :: nat) = Suc (Suc (Suc (Suc (Suc (Suc (Suc (Suc 0)))))))"
    and "(4 :: nat) = Suc (Suc (Suc (Suc 0)))" by simp_all
  then show ?thesis by (simp only: le_bytes.simps append.simps)
qed

lemma unbuffered_String: "unbuffered (String s) = raw_bytes (PInt (length s)) @ s"
  by (simp add: signed_count_nat le_bytes_mod_4 raw_bytes_def)

lemma unbuffered_CString:
  "unbuffered (CString (Some s)) = raw_bytes (PLong (strlen s)) @ take (strlen s) s"
proof -
  have "take (length (takeWhile (\<lambda>c. c \<noteq> CHR 0x00) s)) s = takeWhile (\<lambda>c. c \<noteq> CHR 0x00) s"
    by (induction s) simp_all
  then show ?thesis
    by (simp add: signed_count_nat le_bytes_mod_8 raw_bytes_def strlen_def c_str_def)
qed

lemma unbuffered_null: "unbuffered (CString None) = raw_bytes (PLong (long_of_int (- 1)))"
  by (simp add: signed_count_def long_of_int_def raw_bytes_def)

lemma write_string_ok:
  assumes "buffer_inv a" and "\<not> badbit (fout a)" and "length s < 2 ^ 31"
  shows "\<exists>a'. write_string s a = Inr a' \<and> buffer_inv a' \<and> \<not> badbit (fout a') \<and>
           written a' = written a @ unbuffered (String s)"
proof -
  obtain a1 a2 where a: "write_prim (PInt (length s)) a = Inr a1" "FlushBuffer a1 = Inr a2"
      "buffer_inv a2" "ptr a2 = 0" "\<not> badbit (fout a2)"
      "received (fout a2) = written a @ raw_bytes (PInt (length s))"
    using prefix_flushed [OF assms(1), of "PInt (length s)"] assms(2) by auto
  show ?thesis
    using a assms(3)
    by (simp add: write_string_def Let_def int_of_size_short signed32_nonneg buffer_inv_def
        written_def stream_write_def unbuffered_String del: unbuffered.simps)
qed

lemma write_cstring_ok:
  assumes "buffer_inv a" and "\<not> badbit (fout a)" and "fits (CString s)"
  shows "\<exists>a'. write_cstring s a = Inr a' \<and> buffer_inv a' \<and> \<not> badbit (fout a') \<and>
           written a' = written a @ unbuffered (CString s)"
proof -
  obtain a1 a2 where a: "write_prim (PLong (cstring_len s)) a = Inr a1" "FlushBuffer a1 = Inr a2"
      "buffer_inv a2" "ptr a2 = 0" "\<not> badbit (fout a2)"
      "received (fout a2) = written a @ raw_bytes (PLong (cstring_len s))"
    using prefix_flushed [OF assms(1), of "PLong (cstring_len s)"] assms(2) by auto
  show ?thesis
  proof (cases s)
    case None
    have "signed64 (long_of_int (- 1)) = - 1"
      by (simp add: signed64_def long_of_int_def)
    with a None show ?thesis
      by (simp add: write_cstring_def Let_def cstring_len_def buffer_inv_def written_def
          unbuffered_null del: unbuffered.simps)
  next
    case (Some t)
    with assms(3) have l: "strlen t < 2 ^ 63"
      by (simp add: strlen_def c_str_def)
    then have m: "strlen t mod 18446744073709551616 = strlen t"
      by simp
    have sg: "signed64 (strlen t) = int (strlen t)"
      using l by (simp add: signed64_def m)
    show ?thesis
      using a Some
      by (simp add: write_cstring_def Let_def cstring_len_def cstring_chars_def m sg
          buffer_inv_def written_def stream_write_def unbuffered_CString
          del: unbuffered.simps)
  qed
qed

lemma transfer_ok:
  assumes "buffer_inv a" and "\<not> badbit (fout a)" and "fits x"
  shows "\<exists>a'. transfer x a = Inr a' \<and> buffer_inv a' \<and> \<not> badbit (fout a') \<and>
           written a' = written a @ unbuffered x"
proof (cases x)
  case (Prim y)
  with write_prim_ok [OF assms(1), of y] assms(2) show ?thesis
    by auto
next
  case (String s)
  with write_string_ok [OF assms(1,2), of s] assms(3) show ?thesis
    by simp
next
  case (CString s)
  with write_cstring_ok [OF assms(1,2), of s] assms(3) show ?thesis
    by simp
qed

lemma unbuffered_all_simps [simp]:
  "unbuffered_all [] = []"
  "unbuffered_all (x # xs) = unbuffered x @ unbuffered_all xs"
  "unbuffered_all (xs @ ys) = unbuffered_all xs @ unbuffered_all ys"
  by (simp_all add: unbuffered_all_def)

lemma transfer_all_ok:
  "buffer_inv a \<Longrightarrow> \<not> badbit (fout a) \<Longrightarrow> \<forall>x \<in> set xs. fits x \<Longrightarrow>
   \<exists>a'. transfer_all xs a = Inr a' \<and> buffer_inv a' \<and> \<not> badbit (fout a') \<and>
        written a' = written a @ unbuffered_all xs"
proof (induction xs arbitrary: a)
  case Nil
  then show ?case by simp
next
  case (Cons x xs)
  from Cons.prems have "fits x" by simp
  from transfer_ok [OF Cons.prems(1,2) this] obtain a1 where
    a1: "transfer x a = Inr a1" "buffer_inv a1" "\<not> badbit (fout a1)"
      "written a1 = written a @ unbuffered x"
    by blast
  from Cons.prems have "\<forall>x \<in> set xs. fits x" by simp
  from Cons.IH [OF a1(2,3) this] a1 show ?case
    by (auto simp del: unbuffered.simps)
qed

lemma init_inv: "buffer_inv BinaryOutArchive_init"
  by (simp add: buffer_inv_def BinaryOutArchive_init_def)

lemma init_written:
  "written BinaryOutArchive_init = []" "\<not> badbit (fout BinaryOutArchive_init)"
  by (simp_all add: BinaryOutArchive_init_def written_def)

lemma session_ok:
  assumes "buffer_inv a" and "\<not> badbit (fout a)" and "\<forall>x \<in> set xs. fits x"
  shows "\<exists>a'. session xs a = Inr a' \<and>
           fout a' = \<lparr>received = written a @ unbuffered_all xs, badbit = False\<rparr>"
proof -
  obtain a1 where a1: "transfer_all xs a = Inr a1" "buffer_inv a1" "\<not> badbit (fout a1)"
      "written a1 = written a @ unbuffered_all xs"
    using transfer_all_ok [OF assms] by blast
  obtain a2 where a2: "FlushBuffer a1 = Inr a2" "ptr a2 = 0" "\<not> badbit (fout a2)"
      "written a2 = written a1"
    using Flush_ok [OF a1(2)] a1(3) by auto
  then have "received (fout a2) = written a1"
    by (simp add: written_def)
  with a1 a2 show ?thesis
    by (simp add: session_def destroy_def)
qed

subsection \<open>A stream that is not good\<close>

lemma reached_good: "\<not> badbit (fout a) \<Longrightarrow> reached a = written a"
  by (simp add: reached_def)

lemma payload_reached:
  assumes "ptr a2 = 0"
  shows "\<exists>ys. reached (a2\<lparr>fout := stream_write s n (fout a2)\<rparr>) = received (fout a2) @ ys"
  using assms by (simp add: reached_def written_def stream_write_def)

lemma prefix_reached:
  assumes "buffer_inv a"
  shows "\<exists>a1 a2 ys. write_prim x a = Inr a1 \<and> FlushBuffer a1 = Inr a2 \<and> buffer_inv a2 \<and>
           ptr a2 = 0 \<and> received (fout a2) = reached a @ ys"
proof -
  obtain a1 a2 where a: "write_prim x a = Inr a1" "FlushBuffer a1 = Inr a2" "buffer_inv a2"
      "ptr a2 = 0" "badbit (fout a2) = badbit (fout a)"
      "if badbit (fout a) then received (fout a2) = received (fout a)
       else received (fout a2) = written a @ raw_bytes x"
    using prefix_flushed [OF assms] by blast
  then have "\<exists>ys. received (fout a2) = reached a @ ys"
    by (simp add: reached_def split: if_splits)
  with a show ?thesis
    by blast
qed

lemma string_reached:
  assumes "write_prim x a = Inr a1" and "FlushBuffer a1 = Inr a2" and "buffer_inv a2"
    and "ptr a2 = 0" and "received (fout a2) = reached a @ ys"
  shows "\<exists>zs. buffer_inv (if c then a2\<lparr>fout := stream_write s n (fout a2)\<rparr> else a2) \<and>
           reached (if c then a2\<lparr>fout := stream_write s n (fout a2)\<rparr> else a2) = reached a @ zs"
proof (cases c)
  case True
  from payload_reached [OF assms(4), of s n] obtain zs where
    "reached (a2\<lparr>fout := stream_write s n (fout a2)\<rparr>) = received (fout a2) @ zs"
    by blast
  with True assms(3,5) show ?thesis
    by (simp add: buffer_inv_def)
next
  case False
  have "reached a2 = received (fout a2)"
    using assms(4) by (simp add: reached_def written_def)
  with False assms(3,5) show ?thesis
    by simp
qed

lemma transfer_reached:
  assumes "buffer_inv a"
  shows "\<exists>a' ys. transfer x a = Inr a' \<and> buffer_inv a' \<and> reached a' = reached a @ ys"
proof (cases x)
  case (Prim y)
  from write_prim_ok [OF assms, of y] obtain a' where
    a': "write_prim y a = Inr a'" "buffer_inv a'" "badbit (fout a') = badbit (fout a)"
      "if badbit (fout a) then received (fout a') = received (fout a)
       else written a' = written a @ raw_bytes y"
    by blast
  then have "\<exists>ys. reached a' = reached a @ ys"
    by (simp add: reached_def split: if_splits)
  with Prim a' show ?thesis
    by auto
next
  case (String s)
  let ?len = "int_of_size (length s)"
  from prefix_reached [OF assms, of "PInt ?len"] obtain a1 a2 ys where
    a: "write_prim (PInt ?len) a = Inr a1" "FlushBuffer a1 = Inr a2" "buffer_inv a2"
      "ptr a2 = 0" "received (fout a2) = reached a @ ys"
    by blast
  from string_reached [OF a, of "?len \<noteq> 0" s "signed32 ?len"] String a(1,2) show ?thesis
    by (auto simp: write_string_def Let_def)
next
  case (CString s)
  let ?len = "cstring_len s"
  from prefix_reached [OF assms, of "PLong ?len"] obtain a1 a2 ys where
    a: "write_prim (PLong ?len) a = Inr a1" "FlushBuffer a1 = Inr a2" "buffer_inv a2"
      "ptr a2 = 0" "received (fout a2) = reached a @ ys"
    by blast
  from string_reached [OF a, of "signed64 ?len > 0" "cstring_chars s" "signed64 ?len"]
    CString a(1,2) show ?thesis
    by (auto simp: write_cstring_def Let_def)
qed

lemma transfer_all_reached:
  "buffer_inv a \<Longrightarrow>
   \<exists>a' ys. transfer_all xs a = Inr a' \<and> buffer_inv a' \<and> reached a' = reached a @ ys"
proof (induction xs arbitrary: a)
  case Nil
  then show ?case by simp
next
  case (Cons x xs)
  from transfer_reached [OF Cons.prems, of x] obtain a1 ys where
    a1: "transfer x a = Inr a1" "buffer_inv a1" "reached a1 = reached a @ ys"
    by blast
  from Cons.IH [OF a1(2)] obtain a' zs where
    "transfer_all xs a1 = Inr a'" "buffer_inv a'" "reached a' = reached a1 @ zs"
    by blast
  with a1 show ?case
    by auto
qed

lemma session_reached:
  assumes "buffer_inv a"
  shows "\<exists>a' ys. session xs a = Inr a' \<and> received (fout a') = reached a @ ys"
proof -
  obtain a1 ys where a1: "transfer_all xs a = Inr a1" "buffer_inv a1"
      "reached a1 = reached a @ ys"
    using transfer_all_reached [OF assms] by blast
  obtain a2 where a2: "FlushBuffer a1 = Inr a2" "ptr a2 = 0"
      "badbit (fout a2) = badbit (fout a1)"
      "if badbit (fout a1) then received (fout a2) = received (fout a1)
       else written a2 = written a1"
    using Flush_ok [OF a1(2)] by blast
  have "written a2 = received (fout a2)"
    using a2(2) by (simp add: written_def)
  with a2 have "received (fout a2) = reached a1"
    by (simp add: reached_def split: if_splits)
  with a1 a2 show ?thesis
    by (simp add: session_def destroy_def)
qed

text \<open>
  Claim C8. The buffer offset of a BinaryOutArchive stays within \<open>0 \<le> ptr \<le> BUFFERSIZE\<close>:
  the invariant holds for the freshly constructed object, and every \<open>Write\<close> of a value of
  at most \<open>BUFFERSIZE\<close> bytes and every \<open>FlushBuffer\<close> started in a state that satisfies it
  returns normally (no store leaves the buffer) in a state that satisfies it again.
\<close>

theorem buffer_offset_invariant:
  "buffer_inv BinaryOutArchive_init \<and>
   (\<forall>a x. buffer_inv a \<and> length x \<le> BUFFERSIZE \<longrightarrow>
      (\<exists>a'. Write x a = Inr a' \<and> buffer_inv a')) \<and>
   (\<forall>a. buffer_inv a \<longrightarrow> (\<exists>a'. FlushBuffer a = Inr a' \<and> buffer_inv a'))"
  using init_inv Write_ok Flush_ok by blast

theorem buffer_offset_invariant_witness:
  "buffer_inv BinaryOutArchive_init \<and> length ''abcd'' \<le> BUFFERSIZE \<and>
   (\<exists>a'. Write ''abcd'' BinaryOutArchive_init = Inr a' \<and> buffer_inv a') \<and>
   (\<exists>a'. FlushBuffer BinaryOutArchive_init = Inr a' \<and> buffer_inv a')"
proof -
  have len: "length ''abcd'' \<le> BUFFERSIZE"
    by (simp add: BUFFERSIZE_def)
  from buffer_offset_invariant have i: "buffer_inv BinaryOutArchive_init"
    and w: "\<And>a x. buffer_inv a \<and> length x \<le> BUFFERSIZE \<Longrightarrow>
               \<exists>a'. Write x a = Inr a' \<and> buffer_inv a'"
    and f: "\<And>a. buffer_inv a \<Longrightarrow> \<exists>a'. FlushBuffer a = Inr a' \<and> buffer_inv a'"
    by blast+
  from i len w [of BinaryOutArchive_init "''abcd''"] f [of BinaryOutArchive_init]
  show ?thesis by blast
qed

text \<open>
  Claim C5, amended. For every sequence of transfers in which each string is shorter than
  \<open>2 ^ 31\<close> characters (and each C-string shorter than \<open>2 ^ 63\<close>), the session does not fail,
  the stream is good after the destructor has run, and what it has received is the output
  of the unbuffered writer of the specification: the raw bytes of every primitive and the
  length prefix and payload of every string, in transfer order.
\<close>

theorem buffered_equals_unbuffered:
  assumes "\<forall>x \<in> set xs. fits x"
  shows "\<exists>a'. session xs BinaryOutArchive_init = Inr a' \<and>
           fout a' = \<lparr>received = unbuffered_all xs, badbit = False\<rparr>"
  using session_ok [OF init_inv init_written(2) assms] by (simp add: init_written(1))

lemma short_session_fits:
  "\<forall>x \<in> set [Prim (PInt 7), String ''ab'', CString None, CString (Some ''hello''), Prim (PBool True)].
     fits x"
  by (simp add: c_str_def)

lemma short_session_bytes:
  "unbuffered_all
     [Prim (PInt 7), String ''ab'', CString None, CString (Some ''hello''), Prim (PBool True)] =
   [CHR 0x07, CHR 0x00, CHR 0x00, CHR 0x00,
    CHR 0x02, CHR 0x00, CHR 0x00, CHR 0x00, CHR ''a'', CHR ''b'',
    CHR 0xFF, CHR 0xFF, CHR 0xFF, CHR 0xFF, CHR 0xFF, CHR 0xFF, CHR 0xFF, CHR 0xFF,
    CHR 0x05, CHR 0x00, CHR 0x00, CHR 0x00, CHR 0x00, CHR 0x00, CHR 0x00, CHR 0x00,
    CHR ''h'', CHR ''e'', CHR ''l'', CHR ''l'', CHR ''o'',
    CHR 0x01]"
  by (simp add: raw_bytes_def signed_count_def c_str_def le_bytes_8 le_bytes_4 char_of_def
      bit_Suc_0_iff)

theorem buffered_equals_unbuffered_witness:
  "\<exists>a'. session
          [Prim (PInt 7), String ''ab'', CString None, CString (Some ''hello''), Prim (PBool True)]
          BinaryOutArchive_init = Inr a' \<and>
        fout a' =
          \<lparr>received =
             [CHR 0x07, CHR 0x00, CHR 0x00, CHR 0x00,
              CHR 0x02, CHR 0x00, CHR 0x00, CHR 0x00, CHR ''a'', CHR ''b'',
              CHR 0xFF, CHR 0xFF, CHR 0xFF, CHR 0xFF, CHR 0xFF, CHR 0xFF, CHR 0xFF, CHR 0xFF,
              CHR 0x05, CHR 0x00, CHR 0x00, CHR 0x00, CHR 0x00, CHR 0x00, CHR 0x00, CHR 0x00,
              CHR ''h'', CHR ''e'', CHR ''l'', CHR ''l'', CHR ''o'',
              CHR 0x01],
           badbit = False\<rparr>"
  using buffered_equals_unbuffered [OF short_session_fits]
  unfolding short_session_bytes .

text \<open>
  A string of \<open>2 ^ 31\<close> characters, then an \<^verbatim>\<open>int\<close>. The length is written as \<^verbatim>\<open>int\<close> and is
  negative; the stream receives the four bytes of the length, refuses the payload and is
  not good from then on: the \<^verbatim>\<open>int\<close> that follows and the flush of the destructor are lost.
  The unbuffered writer of the specification emits \<open>2 ^ 31 + 8\<close> bytes.
\<close>

theorem long_string_counterexample:
  "map_sum id fout
     (session [String (replicate (2 ^ 31) CHR ''a''), Prim (PInt 7)] BinaryOutArchive_init) =
     Inr \<lparr>received = [CHR 0x00, CHR 0x00, CHR 0x00, CHR 0x80], badbit = True\<rparr> \<and>
   length (unbuffered_all [String (replicate (2 ^ 31) CHR ''a''), Prim (PInt 7)]) = 2 ^ 31 + 8"
proof -
  let ?s = "replicate (2 ^ 31) CHR ''a''"
  have len: "int_of_size (length ?s) = 2 ^ 31"
    by (simp add: int_of_size_def)
  have neg: "signed32 (2 ^ 31) < 0"
    by (simp add: signed32_def)
  have bytes: "raw_bytes (PInt (2 ^ 31)) = [CHR 0x00, CHR 0x00, CHR 0x00, CHR 0x80]"
    by (simp add: raw_bytes_def le_bytes_4 char_of_def bit_Suc_0_iff)
  obtain a1 a2 where a: "write_prim (PInt (2 ^ 31)) BinaryOutArchive_init = Inr a1"
      "FlushBuffer a1 = Inr a2" "buffer_inv a2" "ptr a2 = 0" "\<not> badbit (fout a2)"
      "received (fout a2) = raw_bytes (PInt (2 ^ 31))"
    using prefix_flushed [OF init_inv, of "PInt (2 ^ 31)"] init_written by auto
  let ?a3 = "a2\<lparr>fout := \<lparr>received = raw_bytes (PInt (2 ^ 31)), badbit = True\<rparr>\<rparr>"
  have "stream_write ?s (signed32 (2 ^ 31)) (fout a2) =
        \<lparr>received = raw_bytes (PInt (2 ^ 31)), badbit = True\<rparr>"
    using a(5,6) neg by (simp add: stream_write_def)
  then have s: "write_string ?s BinaryOutArchive_init = Inr ?a3"
    using a(1,2) unfolding write_string_def len Let_def by simp
  have inv3: "buffer_inv ?a3"
    using a(3) by (simp add: buffer_inv_def)
  obtain a4 where a4: "write_prim (PInt 7) ?a3 = Inr a4" "buffer_inv a4" "badbit (fout a4)"
      "received (fout a4) = raw_bytes (PInt (2 ^ 31))"
    using write_prim_ok [OF inv3, of "PInt 7"] by auto
  obtain a5 where a5: "FlushBuffer a4 = Inr a5" "badbit (fout a5)"
      "received (fout a5) = raw_bytes (PInt (2 ^ 31))"
    using Flush_ok [OF a4(2)] a4(3,4) by auto
  have "fout a5 = \<lparr>received = [CHR 0x00, CHR 0x00, CHR 0x00, CHR 0x80], badbit = True\<rparr>"
    using a5(2,3) bytes by simp
  then have 1: "map_sum id fout (session [String ?s, Prim (PInt 7)] BinaryOutArchive_init) =
      Inr \<lparr>received = [CHR 0x00, CHR 0x00, CHR 0x00, CHR 0x80], badbit = True\<rparr>"
    using s a4(1) a5(1) by (simp add: session_def destroy_def)
  have 2: "length (unbuffered_all [String ?s, Prim (PInt 7)]) = 2 ^ 31 + 8"
    by (simp add: signed_count_def length_raw_bytes)
  from 1 2 show ?thesis
    by (rule conjI)
qed

section \<open>The library-version header and the input archives\<close>

text \<open>
  \<^verbatim>\<open>VersionInfo\<close> is declared in \<^verbatim>\<open>version.hpp\<close>: its type is a parameter \<open>'v\<close> here, and
  its \<^verbatim>\<open>to_string\<close>, its constructor from a string and its default constructor are
  parameters of the functions that use them.

  \<^verbatim>\<open>operator& (std::map<T1, T2>& map)\<close> of an output archive, for the version map, given by
  its entries in iteration order: \<^verbatim>\<open>size_t(map.size())\<close>, then key and value of every entry,
  a value as the string \<^verbatim>\<open>version.to_string()\<close>.
\<close>

definition version_items :: "('v \<Rightarrow> string) \<Rightarrow> (string \<times> 'v) list \<Rightarrow> item list" where
  "version_items to_string tbl =
     Prim (PSize (length tbl mod 2 ^ 64)) #
     concat (map (\<lambda>(k, v). [String k, String (to_string v)]) tbl)"

text \<open>
  The constructor of a writer: \<^verbatim>\<open>Archive(true), fout(std::move(afout))\<close>, then
  \<^verbatim>\<open>(*this) & GetLibraryVersions();\<close>, for the table \<open>tbl\<close> of the process.
\<close>

definition BinaryOutArchive_ctor ::
    "('v \<Rightarrow> string) \<Rightarrow> (string \<times> 'v) list \<Rightarrow> error + BinaryOutArchive" where
  "BinaryOutArchive_ctor to_string tbl =
     transfer_all (version_items to_string tbl) BinaryOutArchive_init"

text \<open>\<^verbatim>\<open>std::map::operator[]\<close>: a missing key is inserted with a default-constructed value.\<close>

definition map_subscript :: "'v \<Rightarrow> string \<Rightarrow> (string \<rightharpoonup> 'v) \<Rightarrow> 'v \<times> (string \<rightharpoonup> 'v)" where
  "map_subscript dflt k m = (case m k of Some v \<Rightarrow> (v, m) | None \<Rightarrow> (dflt, m(k \<mapsto> dflt)))"

record 'v BinaryInArchive =
  vinfo :: "string \<rightharpoonup> 'v"
  fin :: istream

text \<open>
  \<^verbatim>\<open>Read<T> (val)\<close>: \<^verbatim>\<open>fin->read(reinterpret_cast<char*>(&val), sizeof(T))\<close>, for a \<open>val\<close>
  of \<open>n\<close> bytes that holds \<open>old\<close>. It returns normally always; after a short read \<open>val\<close> has
  the bytes that were there at its front and its old ones behind, and the stream has
  failed.
\<close>

definition Read :: "nat \<Rightarrow> nat \<Rightarrow> 'v BinaryInArchive \<Rightarrow> nat \<times> 'v BinaryInArchive" where
  "Read n old a =
     (case stream_read n (fin a) of
        (got, s) \<Rightarrow> (le_value (stored_over got (le_bytes n old)), a\<lparr>fin := s\<rparr>))"

text \<open>
  \<^verbatim>\<open>operator & (std::string & str)\<close> of the reader, for an empty \<open>str\<close>: \<^verbatim>\<open>int len;
  (*this) & len; str.resize(len); if(len) fin->read(&str[0], len);\<close>. The uninitialised
  \<open>len\<close> holds some \<open>len0\<close>. A negative \<open>len\<close> is a huge \<^verbatim>\<open>size_t\<close>, and \<^verbatim>\<open>resize\<close> throws;
  otherwise \<open>str\<close> is \<open>len\<close> times NUL, and the characters read are stored at its front.
\<close>

definition read_string ::
    "nat \<Rightarrow> 'v BinaryInArchive \<Rightarrow> error + (string \<times> 'v BinaryInArchive)" where
  "read_string len0 a =
     (case Read 4 len0 a of
        (len, a1) \<Rightarrow>
          if signed32 len < 0 then Inl LengthError
          else if len \<noteq> 0 then
            (case stream_read (nat (signed32 len)) (fin a1) of
               (got, s) \<Rightarrow>
                 Inr (stored_over got (replicate (nat (signed32 len)) (CHR 0x00)),
                      a1\<lparr>fin := s\<rparr>))
          else Inr ([], a1))"

text \<open>
  \<^verbatim>\<open>operator& (std::map<T1, T2>& map)\<close> of the reader, for the version map: \<open>size\<close> times,
  read the key, read the value (a string, then \<^verbatim>\<open>VersionInfo(s)\<close>), \<^verbatim>\<open>map[key] = val\<close>.
\<close>

fun read_entries ::
    "(string \<Rightarrow> 'v) \<Rightarrow> nat \<Rightarrow> nat \<Rightarrow> 'v BinaryInArchive \<Rightarrow> error + 'v BinaryInArchive" where
  "read_entries of_string len0 0 a = Inr a"
| "read_entries of_string len0 (Suc n) a =
     (case read_string len0 a of
        Inl e \<Rightarrow> Inl e
      | Inr (key, a1) \<Rightarrow>
          (case read_string len0 a1 of
             Inl e \<Rightarrow> Inl e
           | Inr (s, a2) \<Rightarrow>
               read_entries of_string len0 n (a2\<lparr>vinfo := (vinfo a2)(key \<mapsto> of_string s)\<rparr>)))"

text \<open>
  The constructor of a reader: \<^verbatim>\<open>Archive(false), fin(std::move(afin))\<close>, then
  \<^verbatim>\<open>(*this) & vinfo;\<close>, which starts with \<^verbatim>\<open>size_t size = 0; (*this) & size;\<close>.
\<close>

definition BinaryInArchive_ctor ::
    "(string \<Rightarrow> 'v) \<Rightarrow> nat \<Rightarrow> istream \<Rightarrow> error + 'v BinaryInArchive" where
  "BinaryInArchive_ctor of_string len0 afin =
     (case Read 8 0 \<lparr>vinfo = Map.empty, fin = afin\<rparr> of
        (n, a1) \<Rightarrow> read_entries of_string len0 n a1)"

text \<open>\<^verbatim>\<open>BinaryInArchive::GetVersion\<close>: \<^verbatim>\<open>return vinfo[library];\<close>\<close>

definition GetVersion :: "'v \<Rightarrow> string \<Rightarrow> 'v BinaryInArchive \<Rightarrow> 'v \<times> 'v BinaryInArchive" where
  "GetVersion dflt library a =
     (case map_subscript dflt library (vinfo a) of (v, m) \<Rightarrow> (v, a\<lparr>vinfo := m\<rparr>))"

subsection \<open>TextInArchive\<close>

record 'v TextInArchive =
  tvinfo :: "string \<rightharpoonup> 'v"
  tfin :: istream

definition isspace :: "char \<Rightarrow> bool" where
  "isspace c \<longleftrightarrow> c \<in> set [CHR 0x20, CHR 0x09, CHR 0x0A, CHR 0x0B, CHR 0x0C, CHR 0x0D]"

text \<open>
  \<^verbatim>\<open>*fin >> c\<close> for a \<^verbatim>\<open>char c\<close> that holds \<open>c0\<close>: a stream that is not good fails and
  leaves \<open>c\<close>; otherwise white space is skipped and the next character extracted; at the
  end of the input both bits are set and \<open>c\<close> is left as it was.
\<close>

definition extract_char :: "char \<Rightarrow> istream \<Rightarrow> char \<times> istream" where
  "extract_char c0 s =
     (if eofbit s \<or> failbit s then (c0, s\<lparr>failbit := True\<rparr>)
      else
        (case dropWhile isspace (chars s) of
           [] \<Rightarrow> (c0, s\<lparr>chars := [], eofbit := True, failbit := True\<rparr>)
         | c # rest \<Rightarrow> (c, s\<lparr>chars := rest\<rparr>)))"

text \<open>
  \<^verbatim>\<open>TextInArchive::operator & (bool & b)\<close>: \<^verbatim>\<open>char c; *fin >> c; b = (c=='t');\<close>. The
  uninitialised \<open>c\<close> holds some \<open>c0\<close>.
\<close>

definition read_bool :: "char \<Rightarrow> 'v TextInArchive \<Rightarrow> bool \<times> 'v TextInArchive" where
  "read_bool c0 a =
     (case extract_char c0 (tfin a) of (c, s) \<Rightarrow> (c = CHR ''t'', a\<lparr>tfin := s\<rparr>))"

text \<open>\<^verbatim>\<open>TextInArchive::GetVersion\<close>: \<^verbatim>\<open>return vinfo[library];\<close>\<close>

definition TextIn_GetVersion :: "'v \<Rightarrow> string \<Rightarrow> 'v TextInArchive \<Rightarrow> 'v \<times> 'v TextInArchive" where
  "TextIn_GetVersion dflt library a =
     (case map_subscript dflt library (tvinfo a) of (v, m) \<Rightarrow> (v, a\<lparr>tvinfo := m\<rparr>))"

subsection \<open>The header round trip\<close>

lemma le_value_le_bytes: "le_value (le_bytes n v) = v mod 256 ^ n"
proof (induction n arbitrary: v)
  case 0
  then show ?case by simp
next
  case (Suc n)
  have "v mod (256 * 256 ^ n) = 256 * (v div 256 mod 256 ^ n) + v mod 256"
    by (rule mod_mult2_eq)
  with Suc show ?case by simp
qed

lemma stream_read_append:
  "length bs = n \<Longrightarrow>
   stream_read n (istringstream (bs @ rest)) = (bs, istringstream rest)"
  by (simp add: stream_read_def istringstream_def)

lemma Read_append:
  "length bs = n \<Longrightarrow>
   Read n old \<lparr>vinfo = m, fin = istringstream (bs @ rest)\<rparr> =
     (le_value bs, \<lparr>vinfo = m, fin = istringstream rest\<rparr>)"
  by (simp add: Read_def stream_read_append stored_over_def)

lemma read_string_roundtrip:
  assumes "length s < 2 ^ 31"
  shows "read_string len0 \<lparr>vinfo = m, fin = istringstream (unbuffered (String s) @ rest)\<rparr>
         = Inr (s, \<lparr>vinfo = m, fin = istringstream rest\<rparr>)"
proof -
  have v: "le_value (le_bytes 4 (length s)) = length s"
    using assms by (simp add: le_value_le_bytes)
  have r: "Read 4 len0 \<lparr>vinfo = m, fin = istringstream (le_bytes 4 (length s) @ s @ rest)\<rparr>
           = (length s, \<lparr>vinfo = m, fin = istringstream (s @ rest)\<rparr>)"
    using Read_append [of "le_bytes 4 (length s)" 4 len0 m "s @ rest"] v by simp
  have sg: "signed32 (length s) = int (length s)"
    using assms by (rule signed32_nonneg)
  show ?thesis
    unfolding unbuffered_String raw_bytes_def read_string_def
    by (simp add: r sg stream_read_append stored_over_def)
qed

text \<open>The map after \<^verbatim>\<open>map[key] = val\<close> for every entry in turn.\<close>

definition insert_all :: "('v \<Rightarrow> 'w) \<Rightarrow> (string \<rightharpoonup> 'w) \<Rightarrow> (string \<times> 'v) list \<Rightarrow> (string \<rightharpoonup> 'w)" where
  "insert_all f m tbl = foldl (\<lambda>m (k, v). m(k \<mapsto> f v)) m tbl"

lemma insert_all_simps [simp]:
  "insert_all f m [] = m"
  "insert_all f m ((k, v) # tbl) = insert_all f (m(k \<mapsto> f v)) tbl"
  by (simp_all add: insert_all_def)

lemma insert_all_other: "k \<notin> fst ` set tbl \<Longrightarrow> insert_all f m tbl k = m k"
  by (induction tbl arbitrary: m) auto

lemma insert_all_lookup:
  "distinct (map fst tbl) \<Longrightarrow> (k, v) \<in> set tbl \<Longrightarrow> insert_all f m tbl k = Some (f v)"
proof (induction tbl arbitrary: m)
  case Nil
  then show ?case by simp
next
  case (Cons e tbl)
  obtain k' v' where e: "e = (k', v')" by (cases e)
  show ?case
  proof (cases "(k, v) = (k', v')")
    case True
    with Cons.prems e have "k \<notin> fst ` set tbl" by auto
    with True e show ?thesis by (simp add: insert_all_other)
  next
    case False
    with Cons e show ?thesis by auto
  qed
qed

lemma read_entries_roundtrip:
  assumes "\<forall>(k, v) \<in> set tbl. length k < 2 ^ 31 \<and> length (to_string v) < 2 ^ 31"
  shows "read_entries of_string len0 (length tbl)
           \<lparr>vinfo = m,
            fin = istringstream
              (unbuffered_all (concat (map (\<lambda>(k, v). [String k, String (to_string v)]) tbl)) @ rest)\<rparr>
         = Inr \<lparr>vinfo = insert_all (\<lambda>v. of_string (to_string v)) m tbl, fin = istringstream rest\<rparr>"
  using assms
proof (induction tbl arbitrary: m)
  case Nil
  then show ?case by simp
next
  case (Cons e tbl)
  obtain k v where e: "e = (k, v)" by (cases e)
  from Cons.prems e have k: "length k < 2 ^ 31" and v: "length (to_string v) < 2 ^ 31"
    and rest: "\<forall>(k, v) \<in> set tbl. length k < 2 ^ 31 \<and> length (to_string v) < 2 ^ 31"
    by auto
  have step: "read_entries of_string len0 (Suc (length tbl))
           \<lparr>vinfo = m,
            fin = istringstream (unbuffered (String k) @ unbuffered (String (to_string v)) @ more)\<rparr>
         = read_entries of_string len0 (length tbl)
           \<lparr>vinfo = m(k \<mapsto> of_string (to_string v)), fin = istringstream more\<rparr>" for more
    by (simp add: read_string_roundtrip [OF k] read_string_roundtrip [OF v]
          del: unbuffered.simps)
  let ?tail = "unbuffered_all (concat (map (\<lambda>(k, v). [String k, String (to_string v)]) tbl)) @ rest"
  have "read_entries of_string len0 (length (e # tbl))
          \<lparr>vinfo = m,
           fin = istringstream
             (unbuffered_all (concat (map (\<lambda>(k, v). [String k, String (to_string v)]) (e # tbl))) @ rest)\<rparr>
        = read_entries of_string len0 (Suc (length tbl))
          \<lparr>vinfo = m,
           fin = istringstream (unbuffered (String k) @ unbuffered (String (to_string v)) @ ?tail)\<rparr>"
    by (simp add: e del: unbuffered.simps read_entries.simps)
  also have "\<dots> = read_entries of_string len0 (length tbl)
          \<lparr>vinfo = m(k \<mapsto> of_string (to_string v)), fin = istringstream ?tail\<rparr>"
    by (rule step)
  also have "\<dots> = Inr \<lparr>vinfo = insert_all (\<lambda>v. of_string (to_string v))
                               (m(k \<mapsto> of_string (to_string v))) tbl,
                        fin = istringstream rest\<rparr>"
    by (rule Cons.IH [OF rest])
  finally show ?case
    by (simp add: e)
qed

lemma BinaryInArchive_ctor_roundtrip:
  assumes "length tbl < 2 ^ 64"
    and "\<forall>(k, v) \<in> set tbl. length k < 2 ^ 31 \<and> length (to_string v) < 2 ^ 31"
  shows "BinaryInArchive_ctor of_string len0
           (istringstream (unbuffered_all (version_items to_string tbl) @ rest))
         = Inr \<lparr>vinfo = insert_all (\<lambda>v. of_string (to_string v)) Map.empty tbl,
                fin = istringstream rest\<rparr>"
proof -
  have "le_value (le_bytes 8 (length tbl)) = length tbl"
    using assms(1) by (simp add: le_value_le_bytes)
  then have r: "Read 8 0 \<lparr>vinfo = Map.empty, fin = istringstream (le_bytes 8 (length tbl) @ more)\<rparr>
           = (length tbl, \<lparr>vinfo = Map.empty, fin = istringstream more\<rparr>)" for more :: string
    using Read_append [of "le_bytes 8 (length tbl)" 8 0 Map.empty more] by simp
  show ?thesis
    unfolding BinaryInArchive_ctor_def version_items_def
    using read_entries_roundtrip [OF assms(2), of of_string len0 Map.empty rest]
      assms(1)
    by (simp add: raw_bytes_def r del: unbuffered.simps(2,3,4))
qed

lemma version_items_fit:
  assumes "\<forall>(k, v) \<in> set tbl. length k < 2 ^ 31 \<and> length (to_string v) < 2 ^ 31"
  shows "\<forall>x \<in> set (version_items to_string tbl). fits x"
  using assms by (auto simp: version_items_def)

text \<open>
  What the constructor of a writer has written when it returns is the header, and the
  stream is good.
\<close>

lemma BinaryOutArchive_ctor_header:
  assumes "\<forall>(k, v) \<in> set tbl. length k < 2 ^ 31 \<and> length (to_string v) < 2 ^ 31"
  shows "\<exists>a0. BinaryOutArchive_ctor to_string tbl = Inr a0 \<and> buffer_inv a0 \<and>
           \<not> badbit (fout a0) \<and> written a0 = unbuffered_all (version_items to_string tbl)"
  using transfer_all_ok [OF init_inv init_written(2) version_items_fit [OF assms]]
  by (simp add: BinaryOutArchive_ctor_def init_written(1))

text \<open>
  Claim C7. Let the writer's version table have distinct library names (it is a
  \<^verbatim>\<open>std::map\<close>), names and version strings shorter than \<open>2 ^ 31\<close> characters (their
  length is written as an \<^verbatim>\<open>int\<close>), and versions that their string form determines. Then
  the constructor of a BinaryOutArchive returns with the header written and nothing else,
  before any transfer of the user. Whatever the user transfers then, the stream after the
  destructor starts with the header; the constructor of a BinaryInArchive over it
  succeeds and consumes exactly the header: what it leaves to read is what the stream
  received after the header, the user payload, and the stream has not failed.
  \<open>GetVersion\<close> answers every library of the table with the version the table held.
\<close>

theorem version_header_roundtrip:
  assumes "distinct (map fst tbl)" and "length tbl < 2 ^ 64"
    and "\<forall>(L, v) \<in> set tbl. length L < 2 ^ 31 \<and> length (to_string v) < 2 ^ 31 \<and>
           of_string (to_string v) = v"
  shows "\<exists>a0 aout ain payload.
           BinaryOutArchive_ctor to_string tbl = Inr a0 \<and>
           written a0 = unbuffered_all (version_items to_string tbl) \<and>
           session user a0 = Inr aout \<and>
           received (fout aout) = unbuffered_all (version_items to_string tbl) @ payload \<and>
           ((\<forall>x \<in> set user. fits x) \<longrightarrow> payload = unbuffered_all user) \<and>
           BinaryInArchive_ctor of_string len0 (istringstream (received (fout aout))) = Inr ain \<and>
           fin ain = istringstream payload \<and>
           (\<forall>(L, v) \<in> set tbl. fst (GetVersion dflt L ain) = v)"
proof -
  let ?header = "unbuffered_all (version_items to_string tbl)"
  have len: "\<forall>(k, v) \<in> set tbl. length k < 2 ^ 31 \<and> length (to_string v) < 2 ^ 31"
    using assms(3) by auto
  obtain a0 where a0: "BinaryOutArchive_ctor to_string tbl = Inr a0" "buffer_inv a0"
      "\<not> badbit (fout a0)" "written a0 = ?header"
    using BinaryOutArchive_ctor_header [OF len] by blast
  obtain aout payload where aout: "session user a0 = Inr aout"
      "received (fout aout) = ?header @ payload"
    using session_reached [OF a0(2), of user] a0(3,4) by (auto simp: reached_def)
  have fit: "payload = unbuffered_all user" if "\<forall>x \<in> set user. fits x"
    using session_ok [OF a0(2,3) that] aout a0(4) by simp
  let ?ain = "\<lparr>vinfo = insert_all (\<lambda>v. of_string (to_string v)) Map.empty tbl,
               fin = istringstream payload\<rparr>"
  have ctor: "BinaryInArchive_ctor of_string len0 (istringstream (received (fout aout))) = Inr ?ain"
    unfolding aout(2) by (rule BinaryInArchive_ctor_roundtrip [OF assms(2) len])
  have "fst (GetVersion dflt L ?ain) = v" if "(L, v) \<in> set tbl" for L v
  proof -
    have "vinfo ?ain L = Some (of_string (to_string v))"
      using insert_all_lookup [OF assms(1) that] by simp
    moreover have "of_string (to_string v) = v"
      using assms(3) that by auto
    ultimately show ?thesis
      by (simp add: GetVersion_def map_subscript_def)
  qed
  then have g: "\<forall>(L, v) \<in> set tbl. fst (GetVersion dflt L ?ain) = v"
    by auto
  show ?thesis
    apply (rule exI [of _ a0])
    apply (rule exI [of _ aout])
    apply (rule exI [of _ ?ain])
    apply (rule exI [of _ payload])
    using a0(1,4) aout fit ctor g
    apply simp
    done
qed

theorem version_header_roundtrip_witness:
  "distinct (map fst [(''netgen'', ''v6.2'')]) \<and>
   length [(''netgen'', ''v6.2'')] < (2 :: nat) ^ 64 \<and>
   (\<exists>a0 aout ain payload.
      BinaryOutArchive_ctor (\<lambda>v. v) [(''netgen'', ''v6.2'')] = Inr a0 \<and>
      written a0 = unbuffered_all (version_items (\<lambda>v. v) [(''netgen'', ''v6.2'')]) \<and>
      session [Prim (PInt 7)] a0 = Inr aout \<and>
      received (fout aout) =
        unbuffered_all (version_items (\<lambda>v. v) [(''netgen'', ''v6.2'')]) @ payload \<and>
      payload = unbuffered_all [Prim (PInt 7)] \<and>
      BinaryInArchive_ctor (\<lambda>s. s) 0 (istringstream (received (fout aout))) = Inr ain \<and>
      fin ain = istringstream payload \<and>
      fst (GetVersion ''v0'' ''netgen'' ain) = ''v6.2'')"
proof -
  have d: "distinct (map fst [(''netgen'', ''v6.2'')])"
    by simp
  have l: "length [(''netgen'', ''v6.2'')] < (2 :: nat) ^ 64"
    by simp
  have h: "\<forall>(L, v) \<in> set [(''netgen'', ''v6.2'')].
             length L < 2 ^ 31 \<and> length ((\<lambda>v. v) v) < 2 ^ 31 \<and> (\<lambda>s. s) ((\<lambda>v. v) v) = v"
    by simp
  from version_header_roundtrip [OF d l h, of "[Prim (PInt 7)]" 0 "''v0''"] d l
  show ?thesis
    by simp
qed

text \<open>
  Claim C10. \<open>GetVersion\<close> of an input archive, binary or text, asked for a library that
  the version map read from the header does not hold, returns the default-constructed
  \<open>VersionInfo\<close> and inserts it into the map under that name; it has no failing outcome.
\<close>

theorem GetVersion_missing_library:
  "(vinfo a library = None \<longrightarrow>
      GetVersion dflt library a = (dflt, a\<lparr>vinfo := (vinfo a)(library \<mapsto> dflt)\<rparr>)) \<and>
   (tvinfo b library = None \<longrightarrow>
      TextIn_GetVersion dflt library b = (dflt, b\<lparr>tvinfo := (tvinfo b)(library \<mapsto> dflt)\<rparr>))"
  by (simp add: GetVersion_def TextIn_GetVersion_def map_subscript_def)

theorem GetVersion_missing_library_witness:
  "GetVersion ''v0'' ''ngsolve''
     \<lparr>vinfo = [''netgen'' \<mapsto> ''v6.2''], fin = \<lparr>chars = [], eofbit = False, failbit = False\<rparr>\<rparr> =
     (''v0'', \<lparr>vinfo = [''netgen'' \<mapsto> ''v6.2'', ''ngsolve'' \<mapsto> ''v0''],
              fin = \<lparr>chars = [], eofbit = False, failbit = False\<rparr>\<rparr>) \<and>
   TextIn_GetVersion ''v0'' ''ngsolve''
     \<lparr>tvinfo = Map.empty, tfin = \<lparr>chars = [], eofbit = False, failbit = False\<rparr>\<rparr> =
     (''v0'', \<lparr>tvinfo = [''ngsolve'' \<mapsto> ''v0''],
              tfin = \<lparr>chars = [], eofbit = False, failbit = False\<rparr>\<rparr>)"
  using GetVersion_missing_library
    [of "\<lparr>vinfo = [''netgen'' \<mapsto> ''v6.2''],
          fin = \<lparr>chars = [], eofbit = False, failbit = False\<rparr>\<rparr>" "''ngsolve''" "''v0''"
        "\<lparr>tvinfo = Map.empty, tfin = \<lparr>chars = [], eofbit = False, failbit = False\<rparr>\<rparr>"]
  by simp

text \<open>
  Claim C9. Reading a boolean from a TextInArchive whose stream is good and holds a
  character that is not white space consumes the white space before it and that one
  character \<open>c\<close>, leaves the state bits of the stream as they were, and yields true exactly
  when \<open>c\<close> is the letter t. The operation has no failing outcome.
\<close>

theorem read_bool_total:
  assumes "\<not> eofbit (tfin a)" and "\<not> failbit (tfin a)"
    and "dropWhile isspace (chars (tfin a)) = c # rest"
  shows "read_bool c0 a = (c = CHR ''t'', a\<lparr>tfin := (tfin a)\<lparr>chars := rest\<rparr>\<rparr>) \<and> \<not> isspace c"
proof -
  have "\<not> isspace c"
    using assms(3) by (metis hd_dropWhile list.distinct(1) list.sel(1))
  then show ?thesis
    using assms by (simp add: read_bool_def extract_char_def)
qed

theorem read_bool_total_witness:
  "read_bool CHR ''t''
     \<lparr>tvinfo = (Map.empty :: string \<rightharpoonup> string),
      tfin = \<lparr>chars = '' x1'', eofbit = False, failbit = False\<rparr>\<rparr>
     = (False, \<lparr>tvinfo = Map.empty, tfin = \<lparr>chars = ''1'', eofbit = False, failbit = False\<rparr>\<rparr>) \<and>
   read_bool CHR ''f''
     \<lparr>tvinfo = (Map.empty :: string \<rightharpoonup> string),
      tfin = \<lparr>chars = ''t'', eofbit = False, failbit = False\<rparr>\<rparr>
     = (True, \<lparr>tvinfo = Map.empty, tfin = \<lparr>chars = [], eofbit = False, failbit = False\<rparr>\<rparr>)"
proof -
  have 1: "dropWhile isspace '' x1'' = CHR ''x'' # ''1''"
    by (simp add: isspace_def)
  have 2: "dropWhile isspace ''t'' = CHR ''t'' # []"
    by (simp add: isspace_def)
  let ?a = "\<lparr>tvinfo = Map.empty, tfin = \<lparr>chars = '' x1'', eofbit = False, failbit = False\<rparr>\<rparr>
    :: string TextInArchive"
  let ?b = "\<lparr>tvinfo = Map.empty, tfin = \<lparr>chars = ''t'', eofbit = False, failbit = False\<rparr>\<rparr>
    :: string TextInArchive"
  have "\<not> eofbit (tfin ?a)" "\<not> failbit (tfin ?a)"
    "dropWhile isspace (chars (tfin ?a)) = CHR ''x'' # ''1''"
    using 1 by simp_all
  from read_bool_total [OF this, of "CHR ''t''"]
  have A: "read_bool CHR ''t'' ?a = (False, ?a\<lparr>tfin := (tfin ?a)\<lparr>chars := ''1''\<rparr>\<rparr>)"
    by simp
  have "\<not> eofbit (tfin ?b)" "\<not> failbit (tfin ?b)"
    "dropWhile isspace (chars (tfin ?b)) = CHR ''t'' # []"
    using 2 by simp_all
  from read_bool_total [OF this, of "CHR ''f''"]
  have B: "read_bool CHR ''f'' ?b = (True, ?b\<lparr>tfin := (tfin ?b)\<lparr>chars := []\<rparr>\<rparr>)"
    by simp
  from A B show ?thesis
    by simp
qed

section \<open>The archive contract: references and object graphs\<close>

text \<open>
  The base class \<^verbatim>\<open>Archive\<close> is written against the pure virtual transfer operations of
  the primitives; what it sends to them is a sequence of logical tokens, the same for
  every encoder.
\<close>

datatype token = TInt int | TBool bool | TStr string

text \<open>
  An address is a block (one complete object) and an offset into it: a base subobject
  of a class with several bases lies at an offset of its own. \<open>None\<close> is \<^verbatim>\<open>nullptr\<close>.
\<close>

type_synonym cname = string
type_synonym addr = "nat \<times> nat"

text \<open>
  The classes that use the archive are not part of it. A class is what its
  \<^verbatim>\<open>DoArchive\<close> hook transfers: its members in order, each an \<^verbatim>\<open>int\<close>, a \<^verbatim>\<open>T*\<close> or a
  \<^verbatim>\<open>std::shared_ptr<T>\<close> with the static type \<open>T\<close>. Classes are polymorphic: \<^verbatim>\<open>typeid(*p)\<close>
  is the class of the complete object, and \<^verbatim>\<open>DoArchive\<close> is the one of that class. A
  shared pointer is held by the address it stores.
\<close>

datatype val = VInt int | VRaw cname "addr option" | VShared cname "addr option"

record obj =
  dyn :: cname
  contents :: "val list"

type_synonym heap = "obj list"

record class_info =
  constructible :: bool
  members :: "val list"

type_synonym classes = "cname \<rightharpoonup> class_info"

text \<open>\<^verbatim>\<open>struct ClassArchiveInfo\<close>: the three closures of a registered class.\<close>

record ClassArchiveInfo =
  creator :: "cname \<Rightarrow> heap \<Rightarrow> error + (addr \<times> heap)"
  upcaster :: "cname \<Rightarrow> addr \<Rightarrow> error + addr"
  downcaster :: "cname \<Rightarrow> addr \<Rightarrow> error + addr"

type_synonym registry = "cname \<rightharpoonup> ClassArchiveInfo"

text \<open>
  Modelled from the spec: \<^verbatim>\<open>IsRegistered\<close> and \<^verbatim>\<open>GetArchiveRegister\<close> are declared in
  \<^verbatim>\<open>archive.hpp\<close> and defined in \<^verbatim>\<open>archive.cpp\<close>, which is missing. The specification
  gives \<open>is_registered(name) \<rightarrow> bool\<close> and \<open>lookup(name) \<rightarrow> descriptor\<close>, which fails if the
  name is absent; its error for a type name that is not present is
  \<open>UnregisteredPolymorphic\<close>.
\<close>

definition IsRegistered :: "registry \<Rightarrow> cname \<Rightarrow> bool" where
  "IsRegistered reg classname \<longleftrightarrow> reg classname \<noteq> None"

definition GetArchiveRegister :: "registry \<Rightarrow> cname \<Rightarrow> error + ClassArchiveInfo" where
  "GetArchiveRegister reg classname =
     (case reg classname of
        None \<Rightarrow> Inl (UnregisteredPolymorphic classname)
      | Some info \<Rightarrow> Inr info)"

text \<open>\<^verbatim>\<open>typeid(*p)\<close>; a pointer to no object of the heap is \<open>BadReference\<close>.\<close>

definition typeid_of :: "heap \<Rightarrow> addr \<Rightarrow> error + cname" where
  "typeid_of h p = (if fst p < length h then Inr (dyn (h ! fst p)) else Inl BadReference)"

text \<open>\<^verbatim>\<open>std::is_constructible<T>::value\<close>\<close>

definition is_constructible :: "classes \<Rightarrow> cname \<Rightarrow> bool" where
  "is_constructible ct T = (case ct T of None \<Rightarrow> False | Some c \<Rightarrow> constructible c)"

text \<open>
  \<^verbatim>\<open>detail::constructIfPossible<T>()\<close>: \<^verbatim>\<open>new T\<close>, a new block with the members of a
  default-constructed \<open>T\<close>, or the exception.
\<close>

definition constructIfPossible :: "classes \<Rightarrow> cname \<Rightarrow> heap \<Rightarrow> error + (addr \<times> heap)" where
  "constructIfPossible ct T h =
     (case ct T of
        None \<Rightarrow> Inl (NotDefaultConstructible T)
      | Some c \<Rightarrow>
          if constructible c then Inr ((length h, 0), h @ [\<lparr>dyn = T, contents = members c\<rparr>])
          else Inl (NotDefaultConstructible T))"

text \<open>
  The members of \<^verbatim>\<open>class Archive\<close>, and the token stream of the encoder: what has been
  written, for an output archive; what is left to read, for an input archive.
\<close>

record Archive =
  is_output :: bool
  shared_ptr_count :: int
  ptr_count :: int
  shared_ptr2nr :: "addr \<rightharpoonup> int"
  ptr2nr :: "addr \<rightharpoonup> int"
  nr2shared_ptr :: "addr option list"
  nr2ptr :: "addr list"
  stream :: "token list"

text \<open>\<^verbatim>\<open>Archive (bool ais_output)\<close>\<close>

definition Archive_init :: "bool \<Rightarrow> token list \<Rightarrow> Archive" where
  "Archive_init ais_output toks =
     \<lparr>is_output = ais_output, shared_ptr_count = 0, ptr_count = 0,
      shared_ptr2nr = Map.empty, ptr2nr = Map.empty, nr2shared_ptr = [], nr2ptr = [],
      stream = toks\<rparr>"

definition emit :: "token \<Rightarrow> Archive \<Rightarrow> Archive" where
  "emit t ar = ar\<lparr>stream := stream ar @ [t]\<rparr>"

definition read_int :: "Archive \<Rightarrow> error + (int \<times> Archive)" where
  "read_int ar =
     (case stream ar of
        [] \<Rightarrow> Inl StreamFailure
      | TInt i # rest \<Rightarrow> Inr (i, ar\<lparr>stream := rest\<rparr>)
      | _ # rest \<Rightarrow> Inl FormatMismatch)"

definition read_flag :: "Archive \<Rightarrow> error + (bool \<times> Archive)" where
  "read_flag ar =
     (case stream ar of
        [] \<Rightarrow> Inl StreamFailure
      | TBool b # rest \<Rightarrow> Inr (b, ar\<lparr>stream := rest\<rparr>)
      | _ # rest \<Rightarrow> Inl FormatMismatch)"

definition read_name :: "Archive \<Rightarrow> error + (string \<times> Archive)" where
  "read_name ar =
     (case stream ar of
        [] \<Rightarrow> Inl StreamFailure
      | TStr s # rest \<Rightarrow> Inr (s, ar\<lparr>stream := rest\<rparr>)
      | _ # rest \<Rightarrow> Inl FormatMismatch)"

text \<open>
  Step 2 of writing a reference: \<^verbatim>\<open>reg_ptr\<close> is \<open>p\<close> when the static type is the dynamic
  one; otherwise the dynamic type must be registered, and \<^verbatim>\<open>reg_ptr\<close> is what its
  \<^verbatim>\<open>downcaster\<close> makes of \<open>p\<close>.
\<close>

definition reg_ptr_of :: "registry \<Rightarrow> cname \<Rightarrow> cname \<Rightarrow> addr \<Rightarrow> error + addr" where
  "reg_ptr_of reg T D p =
     (if T \<noteq> D then
        (if \<not> IsRegistered reg D then Inl (UnregisteredPolymorphic D)
         else
           (case GetArchiveRegister reg D of
              Inl e \<Rightarrow> Inl e
            | Inr info \<Rightarrow> downcaster info T p))
      else Inr p)"

subsection \<open>Writing a reference\<close>

text \<open>
  \<^verbatim>\<open>operator& (T *& p)\<close> of an output archive, up to the transfer of \<^verbatim>\<open>*p\<close>: the archive
  after the sentinel or the back reference, and the members that \<^verbatim>\<open>(*this) & (*p)\<close> has
  still to transfer, if any.
\<close>

definition write_ptr_head ::
    "registry \<Rightarrow> classes \<Rightarrow> heap \<Rightarrow> cname \<Rightarrow> addr option \<Rightarrow> Archive \<Rightarrow> error + (Archive \<times> val list option)" where
  "write_ptr_head reg ct h T p' ar =
     (case p' of
        None \<Rightarrow> Inr (emit (TInt (- 2)) ar, None)
      | Some p \<Rightarrow>
     (case typeid_of h p of
        Inl e \<Rightarrow> Inl e
      | Inr D \<Rightarrow>
          (case reg_ptr_of reg T D p of
             Inl e \<Rightarrow> Inl e
           | Inr reg_ptr \<Rightarrow>
               (case ptr2nr ar reg_ptr of
                  None \<Rightarrow>
                    (let ar1 = ar\<lparr>ptr2nr := (ptr2nr ar)(reg_ptr \<mapsto> ptr_count ar),
                                   ptr_count := ptr_count ar + 1\<rparr>
                     in if D = T then
                          (if is_constructible ct T
                           then Inr (emit (TInt (- 1)) ar1, Some (contents (h ! fst p)))
                           else Inl (NotDefaultConstructible D))
                        else
                          (if \<not> IsRegistered reg D then Inl (UnregisteredPolymorphic D)
                           else Inr (emit (TStr D) (emit (TInt (- 3)) ar1),
                                     Some (contents (h ! fst p)))))
                | Some nr \<Rightarrow>
                    Inr (emit (TStr D) (emit (TBool (reg_ptr \<noteq> p)) (emit (TInt nr) ar)),
                         None)))))"

text \<open>
  \<^verbatim>\<open>operator & (std::shared_ptr<T>& ptr)\<close> of an output archive, up to
  \<^verbatim>\<open>(*this) & neededDowncast & p\<close>: either all of a null or a known pointer, or the archive
  after \<open>-1\<close> and the flag together with what the rest of the operator needs.
\<close>

definition write_shared_head ::
    "registry \<Rightarrow> heap \<Rightarrow> cname \<Rightarrow> addr option \<Rightarrow> Archive \<Rightarrow> error + (Archive \<times> (addr \<times> bool \<times> cname) option)" where
  "write_shared_head reg h T p' ar =
     (case p' of
        None \<Rightarrow> Inr (emit (TInt (- 2)) ar, None)
      | Some p \<Rightarrow>
     (case typeid_of h p of
        Inl e \<Rightarrow> Inl e
      | Inr D \<Rightarrow>
          (case reg_ptr_of reg T D p of
             Inl e \<Rightarrow> Inl e
           | Inr reg_ptr \<Rightarrow>
               (let neededDowncast = (T \<noteq> D \<and> reg_ptr \<noteq> p) in
                case shared_ptr2nr ar reg_ptr of
                  None \<Rightarrow>
                    Inr (emit (TBool neededDowncast) (emit (TInt (- 1)) ar),
                         Some (reg_ptr, neededDowncast, D))
                | Some nr \<Rightarrow>
                    (let ar1 = emit (TBool neededDowncast) (emit (TInt nr) ar)
                     in Inr (if neededDowncast then emit (TStr D) ar1 else ar1, None))))))"

text \<open>
  The rest of it, after the inner pointer has been transferred: the name if there was a
  downcast, then \<^verbatim>\<open>shared_ptr2nr[reg_ptr] = shared_ptr_count++\<close>.
\<close>

definition write_shared_tail :: "addr \<times> bool \<times> cname \<Rightarrow> Archive \<Rightarrow> Archive" where
  "write_shared_tail k ar1 =
     (case k of (reg_ptr, neededDowncast, D) \<Rightarrow>
        (let ar2 = (if neededDowncast then emit (TStr D) ar1 else ar1)
         in ar2\<lparr>shared_ptr2nr := (shared_ptr2nr ar2)(reg_ptr \<mapsto> shared_ptr_count ar2),
                shared_ptr_count := shared_ptr_count ar2 + 1\<rparr>))"

text \<open>What is fixed for a process: the type registry and the classes of the program.\<close>

record program =
  registry_of :: registry
  classes_of :: classes

text \<open>
  The two operators and \<^verbatim>\<open>DoArchive\<close> call each other for as long as the graph goes on;
  \<open>n\<close> bounds the depth of the calls, and \<open>OutOfFuel\<close> is the outcome of a deeper one.
\<close>

fun write_ptr :: "program \<Rightarrow> heap \<Rightarrow> nat \<Rightarrow> cname \<Rightarrow> addr option \<Rightarrow> Archive \<Rightarrow> error + Archive"
  and write_shared_ptr :: "program \<Rightarrow> heap \<Rightarrow> nat \<Rightarrow> cname \<Rightarrow> addr option \<Rightarrow> Archive \<Rightarrow> error + Archive"
  and write_members :: "program \<Rightarrow> heap \<Rightarrow> nat \<Rightarrow> val list \<Rightarrow> Archive \<Rightarrow> error + Archive"
where
  "write_ptr P h 0 T p ar = Inl OutOfFuel"
| "write_ptr P h (Suc n) T p ar =
     (case write_ptr_head (registry_of P) (classes_of P) h T p ar of
        Inl e \<Rightarrow> Inl e
      | Inr (ar1, None) \<Rightarrow> Inr ar1
      | Inr (ar1, Some body) \<Rightarrow> write_members P h n body ar1)"
| "write_shared_ptr P h 0 T p ar = Inl OutOfFuel"
| "write_shared_ptr P h (Suc n) T p ar =
     (case write_shared_head (registry_of P) h T p ar of
        Inl e \<Rightarrow> Inl e
      | Inr (ar1, None) \<Rightarrow> Inr ar1
      | Inr (ar1, Some k) \<Rightarrow>
          (case write_ptr P h n T p ar1 of
             Inl e \<Rightarrow> Inl e
           | Inr ar2 \<Rightarrow> Inr (write_shared_tail k ar2)))"
| "write_members P h n [] ar = Inr ar"
| "write_members P h n (VInt i # vs) ar = write_members P h n vs (emit (TInt i) ar)"
| "write_members P h n (VRaw T p # vs) ar =
     (case write_ptr P h n T p ar of
        Inl e \<Rightarrow> Inl e
      | Inr ar1 \<Rightarrow> write_members P h n vs ar1)"
| "write_members P h n (VShared T p # vs) ar =
     (case write_shared_ptr P h n T p ar of
        Inl e \<Rightarrow> Inl e
      | Inr ar1 \<Rightarrow> write_members P h n vs ar1)"

subsection \<open>Reading a reference\<close>

text \<open>\<^verbatim>\<open>nr2ptr[nr]\<close>: an index outside the vector is \<open>BadReference\<close>.\<close>

definition nth_checked :: "'a list \<Rightarrow> int \<Rightarrow> error + 'a" where
  "nth_checked xs nr = (if 0 \<le> nr \<and> nat nr < length xs then Inr (xs ! nat nr) else Inl BadReference)"

text \<open>
  \<^verbatim>\<open>operator& (T *& p)\<close> of an input archive, up to the transfer of \<^verbatim>\<open>*p\<close>: the pointer,
  the archive, the heap with what has been constructed, and whether \<^verbatim>\<open>*p\<close> is still to
  be read.
\<close>

definition read_ptr_head ::
    "registry \<Rightarrow> classes \<Rightarrow> cname \<Rightarrow> Archive \<Rightarrow> heap \<Rightarrow> error + (addr option \<times> Archive \<times> heap \<times> bool)" where
  "read_ptr_head reg ct T ar h =
     (case read_int ar of
        Inl e \<Rightarrow> Inl e
      | Inr (nr, ar1) \<Rightarrow>
          if nr = - 2 then Inr (None, ar1, h, False)
          else if nr = - 1 then
            (case constructIfPossible ct T h of
               Inl e \<Rightarrow> Inl e
             | Inr (p, h1) \<Rightarrow> Inr (Some p, ar1\<lparr>nr2ptr := nr2ptr ar1 @ [p]\<rparr>, h1, True))
          else if nr = - 3 then
            (case read_name ar1 of
               Inl e \<Rightarrow> Inl e
             | Inr (name, ar2) \<Rightarrow>
                 (case GetArchiveRegister reg name of
                    Inl e \<Rightarrow> Inl e
                  | Inr info \<Rightarrow>
                      (case creator info T h of
                         Inl e \<Rightarrow> Inl e
                       | Inr (p, h1) \<Rightarrow>
                           (case downcaster info T p of
                              Inl e \<Rightarrow> Inl e
                            | Inr q \<Rightarrow> Inr (Some p, ar2\<lparr>nr2ptr := nr2ptr ar2 @ [q]\<rparr>, h1, True)))))
          else
            (case read_flag ar1 of
               Inl e \<Rightarrow> Inl e
             | Inr (downcasted, ar2) \<Rightarrow>
                 (case read_name ar2 of
                    Inl e \<Rightarrow> Inl e
                  | Inr (name, ar3) \<Rightarrow>
                      if downcasted then
                        (case GetArchiveRegister reg name of
                           Inl e \<Rightarrow> Inl e
                         | Inr info \<Rightarrow>
                             (case nth_checked (nr2ptr ar3) nr of
                                Inl e \<Rightarrow> Inl e
                              | Inr stored \<Rightarrow>
                                  (case upcaster info T stored of
                                     Inl e \<Rightarrow> Inl e
                                   | Inr q \<Rightarrow> Inr (Some q, ar3, h, False))))
                      else
                        (case nth_checked (nr2ptr ar3) nr of
                           Inl e \<Rightarrow> Inl e
                         | Inr stored \<Rightarrow> Inr (Some stored, ar3, h, False)))))"

text \<open>A caster applied to a stored pointer; the writer never stores a null one.\<close>

definition cast_nonnull :: "(addr \<Rightarrow> error + addr) \<Rightarrow> addr option \<Rightarrow> error + addr" where
  "cast_nonnull f p = (case p of None \<Rightarrow> Inl BadReference | Some a \<Rightarrow> f a)"

text \<open>
  \<^verbatim>\<open>operator & (std::shared_ptr<T>& ptr)\<close> of an input archive: all of it for \<open>-2\<close> and for
  a back reference (left), or the flag read after \<open>-1\<close> (right).
\<close>

definition read_shared_head ::
    "registry \<Rightarrow> cname \<Rightarrow> Archive \<Rightarrow> error + (addr option \<times> Archive) + (bool \<times> Archive)" where
  "read_shared_head reg T ar =
     (case read_int ar of
        Inl e \<Rightarrow> Inl e
      | Inr (nr, ar1) \<Rightarrow>
          if nr = - 2 then Inr (Inl (None, ar1))
          else if nr = - 1 then
            (case read_flag ar1 of
               Inl e \<Rightarrow> Inl e
             | Inr (neededDowncast, ar2) \<Rightarrow> Inr (Inr (neededDowncast, ar2)))
          else
            (case nth_checked (nr2shared_ptr ar1) nr of
               Inl e \<Rightarrow> Inl e
             | Inr other \<Rightarrow>
                 (case read_flag ar1 of
                    Inl e \<Rightarrow> Inl e
                  | Inr (neededDowncast, ar2) \<Rightarrow>
                      if neededDowncast then
                        (case read_name ar2 of
                           Inl e \<Rightarrow> Inl e
                         | Inr (name, ar3) \<Rightarrow>
                             (case GetArchiveRegister reg name of
                                Inl e \<Rightarrow> Inl e
                              | Inr info \<Rightarrow>
                                  (case cast_nonnull (upcaster info T) other of
                                     Inl e \<Rightarrow> Inl e
                                   | Inr q \<Rightarrow> Inr (Inl (Some q, ar3)))))
                      else Inr (Inl (other, ar2)))))"

text \<open>
  After \<open>-1\<close>, the flag and the inner pointer \<open>p\<close>: \<^verbatim>\<open>ptr = std::shared_ptr<T>(p)\<close>, and
  what is pushed on \<^verbatim>\<open>nr2shared_ptr\<close> is the downcast pointer if there was a downcast.
\<close>

definition read_shared_tail ::
    "registry \<Rightarrow> cname \<Rightarrow> bool \<Rightarrow> addr option \<Rightarrow> Archive \<Rightarrow> error + (addr option \<times> Archive)" where
  "read_shared_tail reg T neededDowncast p ar =
     (if neededDowncast then
        (case read_name ar of
           Inl e \<Rightarrow> Inl e
         | Inr (name, ar1) \<Rightarrow>
             (case GetArchiveRegister reg name of
                Inl e \<Rightarrow> Inl e
              | Inr info \<Rightarrow>
                  (case cast_nonnull (downcaster info T) p of
                     Inl e \<Rightarrow> Inl e
                   | Inr q \<Rightarrow> Inr (p, ar1\<lparr>nr2shared_ptr := nr2shared_ptr ar1 @ [Some q]\<rparr>))))
      else Inr (p, ar\<lparr>nr2shared_ptr := nr2shared_ptr ar @ [p]\<rparr>))"

text \<open>A member of the object in block \<open>b\<close> is assigned.\<close>

definition set_member :: "heap \<Rightarrow> nat \<Rightarrow> nat \<Rightarrow> val \<Rightarrow> heap" where
  "set_member h b i v = h[b := (h ! b)\<lparr>contents := (contents (h ! b))[i := v]\<rparr>]"

text \<open>
  The reader. \<^verbatim>\<open>DoArchive\<close> of the object in block \<open>b\<close> reads its members in order, from
  member \<open>i\<close> on; the kinds and static types are those of the default-constructed object.
\<close>

fun read_ptr :: "program \<Rightarrow> nat \<Rightarrow> cname \<Rightarrow> Archive \<Rightarrow> heap \<Rightarrow> error + (addr option \<times> Archive \<times> heap)"
  and read_shared_ptr :: "program \<Rightarrow> nat \<Rightarrow> cname \<Rightarrow> Archive \<Rightarrow> heap \<Rightarrow> error + (addr option \<times> Archive \<times> heap)"
  and read_members :: "program \<Rightarrow> nat \<Rightarrow> nat \<Rightarrow> nat \<Rightarrow> val list \<Rightarrow> Archive \<Rightarrow> heap \<Rightarrow> error + (Archive \<times> heap)"
where
  "read_ptr P 0 T ar h = Inl OutOfFuel"
| "read_ptr P (Suc n) T ar h =
     (case read_ptr_head (registry_of P) (classes_of P) T ar h of
        Inl e \<Rightarrow> Inl e
      | Inr (p, ar1, h1, body) \<Rightarrow>
          if body then
            (case p of
               None \<Rightarrow> Inl BadReference
             | Some a \<Rightarrow>
                 if fst a < length h1 then
                   (case read_members P n (fst a) 0 (contents (h1 ! fst a)) ar1 h1 of
                      Inl e \<Rightarrow> Inl e
                    | Inr (ar2, h2) \<Rightarrow> Inr (p, ar2, h2))
                 else Inl BadReference)
          else Inr (p, ar1, h1))"
| "read_shared_ptr P 0 T ar h = Inl OutOfFuel"
| "read_shared_ptr P (Suc n) T ar h =
     (case read_shared_head (registry_of P) T ar of
        Inl e \<Rightarrow> Inl e
      | Inr (Inl (p, ar1)) \<Rightarrow> Inr (p, ar1, h)
      | Inr (Inr (neededDowncast, ar1)) \<Rightarrow>
          (case read_ptr P n T ar1 h of
             Inl e \<Rightarrow> Inl e
           | Inr (p, ar2, h2) \<Rightarrow>
               (case read_shared_tail (registry_of P) T neededDowncast p ar2 of
                  Inl e \<Rightarrow> Inl e
                | Inr (q, ar3) \<Rightarrow> Inr (q, ar3, h2))))"
| "read_members P n b i [] ar h = Inr (ar, h)"
| "read_members P n b i (VInt _ # ks) ar h =
     (case read_int ar of
        Inl e \<Rightarrow> Inl e
      | Inr (v, ar1) \<Rightarrow> read_members P n b (Suc i) ks ar1 (set_member h b i (VInt v)))"
| "read_members P n b i (VRaw T _ # ks) ar h =
     (case read_ptr P n T ar h of
        Inl e \<Rightarrow> Inl e
      | Inr (p, ar1, h1) \<Rightarrow> read_members P n b (Suc i) ks ar1 (set_member h1 b i (VRaw T p)))"
| "read_members P n b i (VShared T _ # ks) ar h =
     (case read_shared_ptr P n T ar h of
        Inl e \<Rightarrow> Inl e
      | Inr (p, ar1, h1) \<Rightarrow> read_members P n b (Suc i) ks ar1 (set_member h1 b i (VShared T p)))"

subsection \<open>Back references and new referents\<close>

lemma stream_emit [simp]: "stream (emit t ar) = stream ar @ [t]"
  and tables_emit [simp]:
    "ptr2nr (emit t ar) = ptr2nr ar" "shared_ptr2nr (emit t ar) = shared_ptr2nr ar"
    "ptr_count (emit t ar) = ptr_count ar" "shared_ptr_count (emit t ar) = shared_ptr_count ar"
    "nr2ptr (emit t ar) = nr2ptr ar" "nr2shared_ptr (emit t ar) = nr2shared_ptr ar"
    "is_output (emit t ar) = is_output ar"
  by (simp_all add: emit_def)

lemma write_shared_back_reference:
  assumes "typeid_of h p = Inr D" and "reg_ptr_of (registry_of P) T D p = Inr reg_ptr"
    and "shared_ptr2nr ar reg_ptr = Some nr"
  shows "write_shared_ptr P h (Suc n) T (Some p) ar =
         Inr (ar\<lparr>stream := stream ar @ TInt nr # TBool (T \<noteq> D \<and> reg_ptr \<noteq> p) #
                    (if T \<noteq> D \<and> reg_ptr \<noteq> p then [TStr D] else [])\<rparr>)"
  using assms by (simp add: write_shared_head_def emit_def)

lemma write_ptr_back_reference:
  assumes "typeid_of h p = Inr D" and "reg_ptr_of (registry_of P) T D p = Inr reg_ptr"
    and "ptr2nr ar reg_ptr = Some nr"
  shows "write_ptr P h (Suc n) T (Some p) ar =
         Inr (ar\<lparr>stream := stream ar @ [TInt nr, TBool (reg_ptr \<noteq> p), TStr D]\<rparr>)"
  using assms by (simp add: write_ptr_head_def emit_def)

lemma read_ptr_back_reference:
  assumes "stream ar = TInt nr # TBool dc # TStr D # rest"
    and "0 \<le> nr" and "nat nr < length (nr2ptr ar)"
    and "dc \<longrightarrow> registry_of P D = Some info \<and> upcaster info T (nr2ptr ar ! nat nr) = Inr q"
  shows "read_ptr P (Suc n) T ar h =
         Inr (Some (if dc then q else nr2ptr ar ! nat nr), ar\<lparr>stream := rest\<rparr>, h)"
  using assms
  by (simp add: read_ptr_head_def read_int_def read_flag_def read_name_def nth_checked_def
      GetArchiveRegister_def)

lemma read_shared_back_reference:
  assumes "stream ar = TInt nr # TBool nd # (if nd then [TStr D] else []) @ rest"
    and "0 \<le> nr" and "nat nr < length (nr2shared_ptr ar)"
    and "nd \<longrightarrow> registry_of P D = Some info \<and>
           cast_nonnull (upcaster info T) (nr2shared_ptr ar ! nat nr) = Inr q"
  shows "read_shared_ptr P (Suc n) T ar h =
         Inr (if nd then Some q else nr2shared_ptr ar ! nat nr, ar\<lparr>stream := rest\<rparr>, h)"
  using assms
  by (simp add: read_shared_head_def read_int_def read_flag_def read_name_def nth_checked_def
      GetArchiveRegister_def)

subsection \<open>Two small programs\<close>

text \<open>
  A node with one shared successor that is the node itself; its class is not registered.
\<close>

definition Node_program :: program where
  "Node_program =
     \<lparr>registry_of = Map.empty,
      classes_of = [''Node'' \<mapsto> \<lparr>constructible = True, members = [VShared ''Node'' None]\<rparr>]\<rparr>"

definition selfloop :: heap where
  "selfloop = [\<lparr>dyn = ''Node'', contents = [VShared ''Node'' (Some (0, 0))]\<rparr>]"

definition selfloop_stream :: "token list" where
  "selfloop_stream =
     [TInt (- 1), TBool False, TInt (- 1), TInt (- 1), TBool False, TInt 0, TBool False,
      TStr ''Node'']"

text \<open>
  A class \<open>Derived\<close> with bases \<open>Base1\<close> at offset 0 and \<open>Base2\<close> at offset 8, registered
  with the closures that its registration installs; and an archive that knows the object
  in block 0 under the number 0.
\<close>

definition Derived_offset :: "cname \<Rightarrow> nat" where
  "Derived_offset T = (if T = ''Base2'' then 8 else 0)"

definition Derived_info :: ClassArchiveInfo where
  "Derived_info =
     \<lparr>creator = (\<lambda>T h. Inr ((length h, Derived_offset T),
                               h @ [\<lparr>dyn = ''Derived'', contents = [VInt 0]\<rparr>])),
      upcaster = (\<lambda>T p. Inr (fst p, Derived_offset T)),
      downcaster = (\<lambda>T p. Inr (fst p, 0))\<rparr>"

definition Derived_program :: program where
  "Derived_program =
     \<lparr>registry_of = [''Derived'' \<mapsto> Derived_info],
      classes_of = [''Derived'' \<mapsto> \<lparr>constructible = True, members = [VInt 0]\<rparr>]\<rparr>"

definition Derived_heap :: heap where
  "Derived_heap = [\<lparr>dyn = ''Derived'', contents = [VInt 7]\<rparr>]"

definition known :: "Archive" where
  "known = (Archive_init True [])\<lparr>shared_ptr2nr := [(0, 0) \<mapsto> 0], ptr2nr := [(0, 0) \<mapsto> 0],
             shared_ptr_count := 1, ptr_count := 1\<rparr>"

text \<open>
  Claim C2, amended. A reference to a referent that is in the identity table is written
  as its number and the flag. After a shared reference the dynamic type name follows
  only if the flag is true; after a raw reference the name follows always. Nothing else
  is written and no table changes. The reader consumes exactly these tokens: for a shared
  reference the name only after a true flag, for a raw reference the flag and the name,
  which it looks up only after a true flag.
\<close>

theorem back_reference_shape:
  "(typeid_of h p = Inr D \<and> reg_ptr_of (registry_of P) T D p = Inr reg_ptr \<and>
    shared_ptr2nr ar reg_ptr = Some nr \<longrightarrow>
      write_shared_ptr P h (Suc n) T (Some p) ar =
        Inr (ar\<lparr>stream := stream ar @ TInt nr # TBool (T \<noteq> D \<and> reg_ptr \<noteq> p) #
                   (if T \<noteq> D \<and> reg_ptr \<noteq> p then [TStr D] else [])\<rparr>)) \<and>
   (typeid_of h p = Inr D \<and> reg_ptr_of (registry_of P) T D p = Inr reg_ptr \<and>
    ptr2nr ar reg_ptr = Some nr \<longrightarrow>
      write_ptr P h (Suc n) T (Some p) ar =
        Inr (ar\<lparr>stream := stream ar @ [TInt nr, TBool (reg_ptr \<noteq> p), TStr D]\<rparr>)) \<and>
   (stream rar = TInt nr # TBool nd # (if nd then [TStr D] else []) @ rest \<and>
    0 \<le> nr \<and> nat nr < length (nr2shared_ptr rar) \<and>
    (nd \<longrightarrow> registry_of P D = Some info \<and>
       cast_nonnull (upcaster info T) (nr2shared_ptr rar ! nat nr) = Inr q) \<longrightarrow>
      read_shared_ptr P (Suc n) T rar rh =
        Inr (if nd then Some q else nr2shared_ptr rar ! nat nr, rar\<lparr>stream := rest\<rparr>, rh)) \<and>
   (stream rar = TInt nr # TBool dc # TStr D # rest \<and>
    0 \<le> nr \<and> nat nr < length (nr2ptr rar) \<and>
    (dc \<longrightarrow> registry_of P D = Some info \<and> upcaster info T (nr2ptr rar ! nat nr) = Inr q) \<longrightarrow>
      read_ptr P (Suc n) T rar rh =
        Inr (Some (if dc then q else nr2ptr rar ! nat nr), rar\<lparr>stream := rest\<rparr>, rh))"
  using write_shared_back_reference [of h p D P T reg_ptr ar nr n]
    write_ptr_back_reference [of h p D P T reg_ptr ar nr n]
    read_shared_back_reference [of rar nr nd D rest P info T q n rh]
    read_ptr_back_reference [of rar nr dc D rest P info T q n rh]
  by blast

lemma Derived_facts:
  "typeid_of Derived_heap (0, 8) = Inr ''Derived''"
  "reg_ptr_of (registry_of Derived_program) ''Base2'' ''Derived'' (0, 8) = Inr (0, 0)"
  "shared_ptr2nr known (0, 0) = Some 0" "ptr2nr known (0, 0) = Some 0" "stream known = []"
  by (simp_all add: typeid_of_def Derived_heap_def reg_ptr_of_def Derived_program_def
      IsRegistered_def GetArchiveRegister_def Derived_info_def known_def Archive_init_def)

theorem back_reference_shape_witness:
  "map_sum id stream (write_shared_ptr Derived_program Derived_heap (Suc 0) ''Base2'' (Some (0, 8)) known)
     = Inr [TInt 0, TBool True, TStr ''Derived''] \<and>
   map_sum id stream (write_ptr Derived_program Derived_heap (Suc 0) ''Base2'' (Some (0, 8)) known)
     = Inr [TInt 0, TBool True, TStr ''Derived'']"
proof -
  from back_reference_shape
    [of Derived_heap "(0, 8)" "''Derived''" Derived_program "''Base2''" "(0, 0)" known 0 0]
  have "write_shared_ptr Derived_program Derived_heap (Suc 0) ''Base2'' (Some (0, 8)) known =
          Inr (known\<lparr>stream := stream known @ [TInt 0, TBool True, TStr ''Derived'']\<rparr>)"
    and "write_ptr Derived_program Derived_heap (Suc 0) ''Base2'' (Some (0, 8)) known =
          Inr (known\<lparr>stream := stream known @ [TInt 0, TBool True, TStr ''Derived'']\<rparr>)"
    using Derived_facts by simp_all
  then show ?thesis
    using Derived_facts(5) by simp
qed

text \<open>
  A raw reference of the exact type to a known referent: the flag is false and the name is
  written all the same.
\<close>

theorem raw_back_reference_counterexample:
  "map_sum id stream
     (write_ptr Node_program selfloop (Suc 0) ''Node'' (Some (0, 0)) known)
   = Inr [TInt 0, TBool False, TStr ''Node'']"
  by code_simp

lemma write_ptr_new_referent:
  assumes "typeid_of h p = Inr D" and "reg_ptr_of (registry_of P) T D p = Inr reg_ptr"
    and "ptr2nr ar reg_ptr = None" and "D = T \<longrightarrow> is_constructible (classes_of P) T"
  shows "\<exists>ar1. ptr2nr ar1 reg_ptr = Some (ptr_count ar) \<and> ptr_count ar1 = ptr_count ar + 1 \<and>
           stream ar1 = stream ar @ (if D = T then [TInt (- 1)] else [TInt (- 3), TStr D]) \<and>
           write_ptr P h (Suc n) T (Some p) ar =
             write_members P h n (contents (h ! fst p)) ar1"
proof (cases "D = T")
  case True
  let ?ar1 = "emit (TInt (- 1))
      (ar\<lparr>ptr2nr := (ptr2nr ar)(reg_ptr \<mapsto> ptr_count ar), ptr_count := ptr_count ar + 1\<rparr>)"
  have "write_ptr P h (Suc n) T (Some p) ar = write_members P h n (contents (h ! fst p)) ?ar1"
    using assms True by (simp add: write_ptr_head_def)
  with True show ?thesis
    by (intro exI [of _ ?ar1]) simp
next
  case False
  with assms(2) have r: "IsRegistered (registry_of P) D"
    by (auto simp: reg_ptr_of_def split: if_splits)
  let ?ar1 = "emit (TStr D) (emit (TInt (- 3))
      (ar\<lparr>ptr2nr := (ptr2nr ar)(reg_ptr \<mapsto> ptr_count ar), ptr_count := ptr_count ar + 1\<rparr>))"
  have "write_ptr P h (Suc n) T (Some p) ar = write_members P h n (contents (h ! fst p)) ?ar1"
    using assms False r by (simp add: write_ptr_head_def)
  with False show ?thesis
    by (intro exI [of _ ?ar1]) simp
qed

lemma write_shared_new_referent:
  assumes "typeid_of h p = Inr D" and "reg_ptr_of (registry_of P) T D p = Inr reg_ptr"
    and "shared_ptr2nr ar reg_ptr = None" and "nd = (T \<noteq> D \<and> reg_ptr \<noteq> p)"
  shows "\<exists>ar1. shared_ptr2nr ar1 reg_ptr = None \<and>
           stream ar1 = stream ar @ [TInt (- 1), TBool nd] \<and>
           write_shared_ptr P h (Suc n) T (Some p) ar =
             (case write_ptr P h n T (Some p) ar1 of
                Inl e \<Rightarrow> Inl e
              | Inr ar2 \<Rightarrow> Inr (write_shared_tail (reg_ptr, nd, D) ar2))"
  using assms(1-3) unfolding assms(4)
  by (intro exI [of _ "emit (TBool (T \<noteq> D \<and> reg_ptr \<noteq> p)) (emit (TInt (- 1)) ar)"])
    (simp add: write_shared_head_def Let_def)

lemma write_shared_tail_records:
  "shared_ptr2nr (write_shared_tail (reg_ptr, nd, D) ar2) reg_ptr = Some (shared_ptr_count ar2) \<and>
   shared_ptr_count (write_shared_tail (reg_ptr, nd, D) ar2) = shared_ptr_count ar2 + 1"
  by (simp add: write_shared_tail_def Let_def)

text \<open>
  Claim C4, amended. A raw reference to a referent that is not in the raw table: the
  members are transferred from an archive that holds \<open>reg_ptr \<mapsto> ptr_count\<close> already, after
  the sentinel. A shared reference to a referent that is not in the shared table: after
  \<open>-1\<close> and the flag, the raw reference is transferred from an archive whose shared table
  does not hold \<open>reg_ptr\<close>, and \<open>reg_ptr \<mapsto> shared_ptr_count\<close> is recorded after it.
\<close>

theorem identity_recorded:
  "(typeid_of h p = Inr D \<and> reg_ptr_of (registry_of P) T D p = Inr reg_ptr \<and>
    ptr2nr ar reg_ptr = None \<and> (D = T \<longrightarrow> is_constructible (classes_of P) T) \<longrightarrow>
      (\<exists>ar1. ptr2nr ar1 reg_ptr = Some (ptr_count ar) \<and> ptr_count ar1 = ptr_count ar + 1 \<and>
         stream ar1 = stream ar @ (if D = T then [TInt (- 1)] else [TInt (- 3), TStr D]) \<and>
         write_ptr P h (Suc n) T (Some p) ar =
           write_members P h n (contents (h ! fst p)) ar1)) \<and>
   (typeid_of h p = Inr D \<and> reg_ptr_of (registry_of P) T D p = Inr reg_ptr \<and>
    shared_ptr2nr ar reg_ptr = None \<and> nd = (T \<noteq> D \<and> reg_ptr \<noteq> p) \<longrightarrow>
      (\<exists>ar1. shared_ptr2nr ar1 reg_ptr = None \<and>
         stream ar1 = stream ar @ [TInt (- 1), TBool nd] \<and>
         write_shared_ptr P h (Suc n) T (Some p) ar =
           (case write_ptr P h n T (Some p) ar1 of
              Inl e \<Rightarrow> Inl e
            | Inr ar2 \<Rightarrow> Inr (write_shared_tail (reg_ptr, nd, D) ar2)))) \<and>
   shared_ptr2nr (write_shared_tail (reg_ptr, nd, D) ar2) reg_ptr = Some (shared_ptr_count ar2) \<and>
   shared_ptr_count (write_shared_tail (reg_ptr, nd, D) ar2) = shared_ptr_count ar2 + 1"
  using write_ptr_new_referent [of h p D P T reg_ptr ar n]
    write_shared_new_referent [of h p D P T reg_ptr ar nd n]
    write_shared_tail_records [of reg_ptr nd D ar2]
  by blast

lemma Node_facts:
  "typeid_of selfloop (0, 0) = Inr ''Node''"
  "reg_ptr_of (registry_of Node_program) ''Node'' ''Node'' (0, 0) = Inr (0, 0)"
  "ptr2nr (Archive_init True []) (0, 0) = None"
  "shared_ptr2nr (Archive_init True []) (0, 0) = None"
  "is_constructible (classes_of Node_program) ''Node''"
  by (simp_all add: typeid_of_def selfloop_def reg_ptr_of_def Node_program_def
      is_constructible_def Archive_init_def)

theorem identity_recorded_witness:
  "(\<exists>ar1. ptr2nr ar1 (0, 0) = Some 0 \<and> ptr_count ar1 = 1 \<and> stream ar1 = [TInt (- 1)] \<and>
      write_ptr Node_program selfloop (Suc 3) ''Node'' (Some (0, 0)) (Archive_init True []) =
        write_members Node_program selfloop 3 (contents (selfloop ! 0)) ar1) \<and>
   (\<exists>ar1. shared_ptr2nr ar1 (0, 0) = None \<and> stream ar1 = [TInt (- 1), TBool False] \<and>
      write_shared_ptr Node_program selfloop (Suc 3) ''Node'' (Some (0, 0)) (Archive_init True []) =
        (case write_ptr Node_program selfloop 3 ''Node'' (Some (0, 0)) ar1 of
           Inl e \<Rightarrow> Inl e
         | Inr ar2 \<Rightarrow> Inr (write_shared_tail ((0, 0), False, ''Node'') ar2)))"
  using identity_recorded
    [of selfloop "(0, 0)" "''Node''" Node_program "''Node''" "(0, 0)" "Archive_init True []" 3
        False "Archive_init True []"]
    Node_facts
  by (simp add: Archive_init_def)

text \<open>
  The node that is its own successor: the archive that the body is written from does not
  hold the node in its shared table; the successor is written with \<open>-1\<close> again, and the
  node gets two shared numbers.
\<close>

theorem shared_identity_counterexample:
  "map_sum id (\<lambda>(ar1, k). (stream ar1, shared_ptr2nr ar1 (0, 0)))
     (write_shared_head (registry_of Node_program) selfloop ''Node'' (Some (0, 0))
        (Archive_init True []))
     = Inr ([TInt (- 1), TBool False], None) \<and>
   map_sum id (\<lambda>ar. (stream ar, shared_ptr_count ar, shared_ptr2nr ar (0, 0)))
     (write_shared_ptr Node_program selfloop 4 ''Node'' (Some (0, 0)) (Archive_init True []))
     = Inr (selfloop_stream, 2, Some 1)"
  by code_simp

subsection \<open>Unregistered classes\<close>

text \<open>
  The closures of a registered class fail with the exceptions of \<^verbatim>\<open>Caster\<close> and of
  \<^verbatim>\<open>constructIfPossible\<close>; \<^verbatim>\<open>Caster\<close> catches what a lookup throws.
\<close>

definition casters_quiet :: "registry \<Rightarrow> bool" where
  "casters_quiet reg \<longleftrightarrow>
     (\<forall>D info T p h x. reg D = Some info \<longrightarrow>
        downcaster info T p \<noteq> Inl (UnregisteredPolymorphic x) \<and>
        upcaster info T p \<noteq> Inl (UnregisteredPolymorphic x) \<and>
        creator info T h \<noteq> Inl (UnregisteredPolymorphic x))"

text \<open>The references of a list of members, and those held by the objects of a heap.\<close>

definition refs_of :: "val list \<Rightarrow> (cname \<times> addr) set" where
  "refs_of vs = {(T, p). VRaw T (Some p) \<in> set vs \<or> VShared T (Some p) \<in> set vs}"

definition references :: "heap \<Rightarrow> (cname \<times> addr) set" where
  "references h = (\<Union>b \<in> set h. refs_of (contents b))"

lemma reg_ptr_of_unregistered:
  assumes "reg_ptr_of reg T D p = Inl (UnregisteredPolymorphic x)" and "casters_quiet reg"
  shows "x = D \<and> T \<noteq> D \<and> \<not> IsRegistered reg D"
proof -
  have q: "downcaster info T p \<noteq> Inl (UnregisteredPolymorphic x)" if "reg D = Some info" for info
    using assms(2) that unfolding casters_quiet_def by blast
  show ?thesis
    using assms(1) q
    by (auto simp: reg_ptr_of_def GetArchiveRegister_def IsRegistered_def
        split: if_splits option.splits)
qed

lemma write_ptr_head_unregistered:
  assumes "write_ptr_head reg ct h T p' ar = Inl (UnregisteredPolymorphic x)"
    and "casters_quiet reg"
  shows "\<exists>p. p' = Some p \<and> typeid_of h p = Inr x \<and> T \<noteq> x \<and> \<not> IsRegistered reg x"
proof (cases p')
  case None
  with assms show ?thesis by (simp add: write_ptr_head_def)
next
  case (Some p)
  show ?thesis
  proof (cases "typeid_of h p")
    case (Inl e)
    with assms Some show ?thesis
      by (simp add: write_ptr_head_def typeid_of_def split: if_splits)
  next
    case (Inr D)
    show ?thesis
    proof (cases "reg_ptr_of reg T D p")
      case (Inl e)
      with assms Some Inr have "e = UnregisteredPolymorphic x"
        by (simp add: write_ptr_head_def)
      with Inl reg_ptr_of_unregistered [OF _ assms(2)] Some Inr show ?thesis
        by blast
    next
      case r: (Inr reg_ptr)
      with assms Some Inr show ?thesis
        by (auto simp: write_ptr_head_def Let_def split: option.splits if_splits)
    qed
  qed
qed

lemma write_shared_head_unregistered:
  assumes "write_shared_head reg h T p' ar = Inl (UnregisteredPolymorphic x)"
    and "casters_quiet reg"
  shows "\<exists>p. p' = Some p \<and> typeid_of h p = Inr x \<and> T \<noteq> x \<and> \<not> IsRegistered reg x"
proof (cases p')
  case None
  with assms show ?thesis by (simp add: write_shared_head_def)
next
  case (Some p)
  show ?thesis
  proof (cases "typeid_of h p")
    case (Inl e)
    with assms Some show ?thesis
      by (simp add: write_shared_head_def typeid_of_def split: if_splits)
  next
    case (Inr D)
    show ?thesis
    proof (cases "reg_ptr_of reg T D p")
      case (Inl e)
      with assms Some Inr have "e = UnregisteredPolymorphic x"
        by (simp add: write_shared_head_def)
      with Inl reg_ptr_of_unregistered [OF _ assms(2)] Some Inr show ?thesis
        by blast
    next
      case r: (Inr reg_ptr)
      with assms Some Inr show ?thesis
        by (auto simp: write_shared_head_def Let_def split: option.splits if_splits)
    qed
  qed
qed

lemma refs_of_contents:
  "b < length h \<Longrightarrow> refs_of (contents (h ! b)) \<subseteq> references h"
proof -
  assume "b < length h"
  then have "h ! b \<in> set h" by (rule nth_mem)
  then show ?thesis unfolding references_def by blast
qed

lemma refs_of_Cons:
  "refs_of (VInt i # vs) = refs_of vs"
  "refs_of [VRaw T p] \<subseteq> refs_of (VRaw T p # vs)"
  "refs_of [VShared T p] \<subseteq> refs_of (VShared T p # vs)"
  "refs_of vs \<subseteq> refs_of (v # vs)"
  by (auto simp: refs_of_def)

lemma write_ptr_head_body:
  assumes "write_ptr_head reg ct h T p' ar = Inr (ar1, Some body)"
  shows "\<exists>p. p' = Some p \<and> fst p < length h \<and> body = contents (h ! fst p)"
  using assms
  by (auto simp: write_ptr_head_def typeid_of_def Let_def
      split: option.splits sum.splits if_splits)

lemma write_shared_head_inner:
  assumes "write_shared_head reg h T p' ar = Inr (ar1, Some k)"
  shows "\<exists>p. p' = Some p"
  using assms by (cases p') (simp_all add: write_shared_head_def)

lemma refs_of_single:
  "(T, a) \<in> refs_of [VRaw T (Some a)]" "(T, a) \<in> refs_of [VShared T (Some a)]"
  "refs_of [VRaw T (Some a)] = refs_of [VShared T (Some a)]"
  by (auto simp: refs_of_def)

lemma write_unregistered_referent:
  assumes "typeid_of h p = Inr D" and "D \<noteq> T" and "\<not> IsRegistered (registry_of P) D"
  shows "write_ptr P h (Suc n) T (Some p) ar = Inl (UnregisteredPolymorphic D)"
    and "write_shared_ptr P h (Suc n) T (Some p) ar = Inl (UnregisteredPolymorphic D)"
  using assms by (auto simp: write_ptr_head_def write_shared_head_def reg_ptr_of_def)

lemma read_ptr_unregistered:
  assumes "\<not> IsRegistered (registry_of P) name"
  shows "stream ar = TInt (- 3) # TStr name # rest \<Longrightarrow>
           read_ptr P (Suc n) T ar h = Inl (UnregisteredPolymorphic name)"
    and "stream ar = TInt nr # TBool True # TStr name # rest \<Longrightarrow> nr \<notin> {- 1, - 2, - 3} \<Longrightarrow>
           read_ptr P (Suc n) T ar h = Inl (UnregisteredPolymorphic name)"
  using assms
  by (auto simp: read_ptr_head_def read_int_def read_name_def read_flag_def
      GetArchiveRegister_def IsRegistered_def)

lemma read_shared_unregistered:
  assumes "\<not> IsRegistered (registry_of P) name"
  shows "stream ar = TInt nr # TBool True # TStr name # rest \<Longrightarrow> 0 \<le> nr \<Longrightarrow>
           nat nr < length (nr2shared_ptr ar) \<Longrightarrow>
           read_shared_ptr P (Suc n) T ar h = Inl (UnregisteredPolymorphic name)"
    and "stream ar = TStr name # rest \<Longrightarrow>
           read_shared_tail (registry_of P) T True p ar = Inl (UnregisteredPolymorphic name)"
  using assms
  by (auto simp: read_shared_head_def read_shared_tail_def read_int_def read_name_def
      read_flag_def nth_checked_def GetArchiveRegister_def IsRegistered_def)

section \<open>Saving and loading an object graph\<close>

subsection \<open>The writer terminates\<close>

text \<open>The writer only appends to the stream, and only adds to the raw table.\<close>

definition extends :: "Archive \<Rightarrow> Archive \<Rightarrow> bool" where
  "extends ar ar' \<longleftrightarrow>
     (\<exists>ts. stream ar' = stream ar @ ts) \<and> dom (ptr2nr ar) \<subseteq> dom (ptr2nr ar')"

lemma extends_refl: "extends ar ar"
  by (simp add: extends_def)

lemma extends_trans: "extends a b \<Longrightarrow> extends b c \<Longrightarrow> extends a c"
  by (auto simp: extends_def)

lemma extends_emit: "extends ar (emit t ar)"
  by (simp add: extends_def)

lemma write_ptr_head_extends:
  "write_ptr_head reg ct h T p ar = Inr (ar1, b) \<Longrightarrow> extends ar ar1"
  by (auto simp: write_ptr_head_def extends_def Let_def
      split: option.splits sum.splits if_splits)

lemma write_shared_head_extends:
  "write_shared_head reg h T p ar = Inr (ar1, k) \<Longrightarrow> extends ar ar1"
  by (auto simp: write_shared_head_def extends_def Let_def
      split: option.splits sum.splits if_splits)

lemma write_shared_tail_extends: "extends ar (write_shared_tail k ar)"
  by (cases k) (auto simp: write_shared_tail_def extends_def Let_def)

lemma write_extends:
  shows "write_ptr P h n T p ar = Inr ar' \<Longrightarrow> extends ar ar'"
    and "write_shared_ptr P h n T p ar = Inr ar' \<Longrightarrow> extends ar ar'"
    and "write_members P h n vs ar = Inr ar' \<Longrightarrow> extends ar ar'"
proof (induction P h n T p ar and P h n T p ar and P h n vs ar arbitrary: ar' and ar' and ar'
    rule: write_ptr_write_shared_ptr_write_members.induct)
  case (1 P h T p ar)
  then show ?case by simp
next
  case (2 P h n T p ar)
  then obtain ar1 b where hd: "write_ptr_head (registry_of P) (classes_of P) h T p ar = Inr (ar1, b)"
    by (auto split: sum.splits)
  show ?case
  proof (cases b)
    case None
    with hd "2.prems" write_ptr_head_extends [OF hd] show ?thesis by simp
  next
    case (Some body)
    with hd "2.prems" have "write_members P h n body ar1 = Inr ar'" by simp
    from "2.IH" [OF hd refl Some this] write_ptr_head_extends [OF hd] show ?thesis
      by (blast intro: extends_trans)
  qed
next
  case (3 P h T p ar)
  then show ?case by simp
next
  case (4 P h n T p ar)
  then obtain ar1 b where hd: "write_shared_head (registry_of P) h T p ar = Inr (ar1, b)"
    by (auto split: sum.splits)
  show ?case
  proof (cases b)
    case None
    with hd "4.prems" write_shared_head_extends [OF hd] show ?thesis by simp
  next
    case (Some k)
    with hd "4.prems" obtain ar2 where w: "write_ptr P h n T p ar1 = Inr ar2"
      and r: "ar' = write_shared_tail k ar2"
      by (auto split: sum.splits)
    from "4.IH" [OF hd refl Some w] write_shared_head_extends [OF hd]
      write_shared_tail_extends [of ar2 k] r
    show ?thesis
      by (blast intro: extends_trans)
  qed
next
  case (5 P h n ar)
  then show ?case by (simp add: extends_refl)
next
  case (6 P h n i vs ar)
  from "6.IH" [OF "6.prems" [simplified]] extends_emit [of ar "TInt i"] show ?case
    by (blast intro: extends_trans)
next
  case (7 P h n T p vs ar)
  then obtain ar1 where w: "write_ptr P h n T p ar = Inr ar1"
    and m: "write_members P h n vs ar1 = Inr ar'"
    by (auto split: sum.splits)
  from "7.IH"(1) [OF w] "7.IH"(2) [OF w m] show ?case
    by (blast intro: extends_trans)
next
  case (8 P h n T p vs ar)
  then obtain ar1 where w: "write_shared_ptr P h n T p ar = Inr ar1"
    and m: "write_members P h n vs ar1 = Inr ar'"
    by (auto split: sum.splits)
  from "8.IH"(1) [OF w] "8.IH"(2) [OF w m] show ?case
    by (blast intro: extends_trans)
qed

text \<open>
  The closures of a registered class fail with the exception of \<^verbatim>\<open>Caster\<close> or with that of
  \<^verbatim>\<open>constructIfPossible\<close>, and with nothing else.
\<close>

definition casters_fail :: "registry \<Rightarrow> bool" where
  "casters_fail reg \<longleftrightarrow>
     (\<forall>D info T p h e. reg D = Some info \<longrightarrow>
        (downcaster info T p = Inl e \<longrightarrow> e = CastFailure) \<and>
        (upcaster info T p = Inl e \<longrightarrow> e = CastFailure) \<and>
        (creator info T h = Inl e \<longrightarrow> e = CastFailure \<or> (\<exists>x. e = NotDefaultConstructible x)))"

lemma casters_failD:
  assumes "casters_fail reg" and "reg D = Some info"
  shows "downcaster info T p = Inl e \<Longrightarrow> e = CastFailure"
    and "upcaster info T p = Inl e \<Longrightarrow> e = CastFailure"
    and "creator info T h = Inl e \<Longrightarrow> e = CastFailure \<or> (\<exists>x. e = NotDefaultConstructible x)"
  using assms unfolding casters_fail_def by blast+

text \<open>
  The keys that the raw table can get: the normalized addresses of the references \<open>R\<close>.
  Those that it does not hold yet bound the depth of the calls.
\<close>

definition reg_keys :: "program \<Rightarrow> heap \<Rightarrow> (cname \<times> addr) set \<Rightarrow> addr set" where
  "reg_keys P h R =
     {a. \<exists>(T, p) \<in> R. \<exists>D. typeid_of h p = Inr D \<and> reg_ptr_of (registry_of P) T D p = Inr a}"

text \<open>The number of those keys that the raw table does not hold.\<close>

definition unvisited :: "program \<Rightarrow> heap \<Rightarrow> (cname \<times> addr) set \<Rightarrow> Archive \<Rightarrow> nat" where
  "unvisited P h R ar = card (reg_keys P h R - dom (ptr2nr ar))"

lemma finite_refs_of: "finite (refs_of vs)"
proof -
  have "refs_of vs \<subseteq>
      (\<lambda>v. case v of VRaw T (Some p) \<Rightarrow> (T, p) | VShared T (Some p) \<Rightarrow> (T, p)) ` set vs"
    by (force simp: refs_of_def image_iff)
  then show ?thesis
    by (rule finite_subset) simp
qed

lemma finite_references: "finite (references h)"
  by (simp add: references_def finite_refs_of)

lemma finite_reg_keys:
  assumes "finite R"
  shows "finite (reg_keys P h R)"
proof -
  have "reg_keys P h R \<subseteq>
      (\<lambda>(T, p). case typeid_of h p of
                   Inr D \<Rightarrow> (case reg_ptr_of (registry_of P) T D p of Inr a \<Rightarrow> a)) ` R"
    by (force simp: reg_keys_def image_iff)
  then show ?thesis
    using assms by (rule finite_subset [OF _ finite_imageI])
qed

lemma unvisited_mono:
  assumes "finite R" and "extends ar ar'"
  shows "unvisited P h R ar' \<le> unvisited P h R ar"
  unfolding unvisited_def
  using assms(2) by (intro card_mono finite_Diff finite_reg_keys [OF assms(1)])
    (auto simp: extends_def)

lemma unvisited_emit [simp]: "unvisited P h R (emit t ar) = unvisited P h R ar"
  by (simp add: unvisited_def emit_def)

lemma write_ptr_head_visits:
  assumes "write_ptr_head (registry_of P) ct h T (Some a) ar = Inr (ar1, Some body)"
    and "(T, a) \<in> R" and "finite R"
  shows "Suc (unvisited P h R ar1) \<le> unvisited P h R ar"
proof -
  from assms(1) obtain D key where
    D: "typeid_of h a = Inr D" and key: "reg_ptr_of (registry_of P) T D a = Inr key"
    and new: "ptr2nr ar key = None" and dom: "dom (ptr2nr ar1) = insert key (dom (ptr2nr ar))"
    by (auto simp: write_ptr_head_def Let_def emit_def
        split: option.splits sum.splits if_splits)
  from D key assms(2) have k: "key \<in> reg_keys P h R"
    by (auto simp: reg_keys_def)
  let ?K = "reg_keys P h R"
  have f: "finite (?K - dom (ptr2nr ar))"
    by (intro finite_Diff finite_reg_keys assms(3))
  have "?K - dom (ptr2nr ar1) = (?K - dom (ptr2nr ar)) - {key}"
    using dom by auto
  moreover have "key \<in> ?K - dom (ptr2nr ar)"
    using k new by auto
  ultimately have "card (?K - dom (ptr2nr ar1)) < card (?K - dom (ptr2nr ar))"
    using card_Diff1_less [OF f, of key] by simp
  then show ?thesis
    by (simp add: unvisited_def)
qed

lemma write_shared_head_unvisited:
  assumes "write_shared_head reg h T p ar = Inr (ar1, k)"
  shows "unvisited P h R ar1 = unvisited P h R ar"
  using assms
  by (auto simp: write_shared_head_def Let_def split: option.splits sum.splits if_splits)

lemma write_ptr_head_fuel:
  assumes "casters_fail reg"
  shows "write_ptr_head reg ct h T p ar \<noteq> Inl OutOfFuel"
    and "write_shared_head reg h T p ar \<noteq> Inl OutOfFuel"
proof -
  have q: "downcaster info T' p' \<noteq> Inl OutOfFuel" if "reg D = Some info" for D info T' p'
    using casters_failD(1) [OF assms that, of T' p' OutOfFuel] by auto
  show "write_ptr_head reg ct h T p ar \<noteq> Inl OutOfFuel"
    using q
    by (auto simp: write_ptr_head_def typeid_of_def reg_ptr_of_def Let_def
        GetArchiveRegister_def IsRegistered_def
        split: option.splits sum.splits if_splits)
  show "write_shared_head reg h T p ar \<noteq> Inl OutOfFuel"
    using q
    by (auto simp: write_shared_head_def typeid_of_def reg_ptr_of_def Let_def
        GetArchiveRegister_def IsRegistered_def
        split: option.splits sum.splits if_splits)
qed

lemma write_terminates:
  assumes "finite R" and "references h \<subseteq> R" and "casters_fail (registry_of P)"
  shows "refs_of [VRaw T p] \<subseteq> R \<Longrightarrow> 2 * unvisited P h R ar + 1 \<le> n \<Longrightarrow>
           write_ptr P h n T p ar \<noteq> Inl OutOfFuel"
    and "refs_of [VShared T p] \<subseteq> R \<Longrightarrow> 2 * unvisited P h R ar + 2 \<le> n \<Longrightarrow>
           write_shared_ptr P h n T p ar \<noteq> Inl OutOfFuel"
    and "refs_of vs \<subseteq> R \<Longrightarrow> 2 * unvisited P h R ar + 2 \<le> n \<Longrightarrow>
           write_members P h n vs ar \<noteq> Inl OutOfFuel"
  using assms
proof (induction P h n T p ar and P h n T p ar and P h n vs ar
    rule: write_ptr_write_shared_ptr_write_members.induct)
  case (1 P h T p ar)
  then show ?case by simp
next
  case (2 P h n T p ar)
  show ?case
  proof (cases "write_ptr_head (registry_of P) (classes_of P) h T p ar")
    case (Inl e)
    with write_ptr_head_fuel(1) [OF "2.prems"(5)] show ?thesis
      by auto
  next
    case (Inr r)
    obtain ar1 b where r: "r = (ar1, b)" by (cases r)
    show ?thesis
    proof (cases b)
      case None
      with Inr r show ?thesis by simp
    next
      case (Some body)
      from Inr r Some
      have hd: "write_ptr_head (registry_of P) (classes_of P) h T p ar = Inr (ar1, Some body)"
        by simp
      from write_ptr_head_body [OF hd] obtain a :: addr where
        a: "p = Some a" "fst a < length h" "body = contents (h ! fst a)"
        by blast
      have R: "refs_of body \<subseteq> R"
        using refs_of_contents [OF a(2)] a(3) "2.prems"(4) by blast
      have "(T, a) \<in> R"
        using "2.prems"(1) a(1) refs_of_single(1) [of T a] by blast
      from write_ptr_head_visits [OF hd [unfolded a(1)] this "2.prems"(3)] "2.prems"(2)
      have "2 * unvisited P h R ar1 + 2 \<le> n"
        by simp
      from "2.IH" [OF Inr r [symmetric] Some R this "2.prems"(3,4,5)] Inr r Some
      show ?thesis by simp
    qed
  qed
next
  case (3 P h T p ar)
  then show ?case by simp
next
  case (4 P h n T p ar)
  show ?case
  proof (cases "write_shared_head (registry_of P) h T p ar")
    case (Inl e)
    with write_ptr_head_fuel(2) [OF "4.prems"(5)] show ?thesis
      by auto
  next
    case (Inr r)
    obtain ar1 b where r: "r = (ar1, b)" by (cases r)
    show ?thesis
    proof (cases b)
      case None
      with Inr r show ?thesis by simp
    next
      case (Some k)
      from Inr r Some
      have hd: "write_shared_head (registry_of P) h T p ar = Inr (ar1, Some k)"
        by simp
      from write_shared_head_inner [OF hd] obtain a where a: "p = Some a"
        by blast
      have R: "refs_of [VRaw T p] \<subseteq> R"
        using "4.prems"(1) a refs_of_single(3) [of T a] by simp
      have "2 * unvisited P h R ar1 + 1 \<le> n"
        using write_shared_head_unvisited [OF hd, where P = P and R = R] "4.prems"(2) by simp
      from "4.IH" [OF Inr r [symmetric] Some R this "4.prems"(3,4,5)] Inr r Some
      show ?thesis by (auto split: sum.splits)
    qed
  qed
next
  case (5 P h n ar)
  then show ?case by simp
next
  case (6 P h n i vs ar)
  then show ?case by (simp add: refs_of_Cons)
next
  case (7 P h n T p vs ar)
  have 1: "refs_of [VRaw T p] \<subseteq> R" and 2: "refs_of vs \<subseteq> R"
    using "7.prems"(1) refs_of_Cons(2) [of T p vs] refs_of_Cons(4) [of vs "VRaw T p"] by blast+
  have f: "2 * unvisited P h R ar + 1 \<le> n"
    using "7.prems"(2) by simp
  show ?case
  proof (cases "write_ptr P h n T p ar")
    case (Inl e)
    with "7.IH"(1) [OF 1 f "7.prems"(3,4,5)] show ?thesis by simp
  next
    case (Inr ar1)
    from unvisited_mono [OF "7.prems"(3) write_extends(1) [OF Inr], of P h] "7.prems"(2)
    have "2 * unvisited P h R ar1 + 2 \<le> n" by simp
    from "7.IH"(2) [OF Inr 2 this "7.prems"(3,4,5)] Inr show ?thesis by simp
  qed
next
  case (8 P h n T p vs ar)
  have 1: "refs_of [VShared T p] \<subseteq> R" and 2: "refs_of vs \<subseteq> R"
    using "8.prems"(1) refs_of_Cons(3) [of T p vs] refs_of_Cons(4) [of vs "VShared T p"]
    by blast+
  show ?case
  proof (cases "write_shared_ptr P h n T p ar")
    case (Inl e)
    with "8.IH"(1) [OF 1 "8.prems"(2,3,4,5)] show ?thesis by simp
  next
    case (Inr ar1)
    from unvisited_mono [OF "8.prems"(3) write_extends(2) [OF Inr], of P h] "8.prems"(2)
    have "2 * unvisited P h R ar1 + 2 \<le> n" by simp
    from "8.IH"(2) [OF Inr 2 this "8.prems"(3,4,5)] Inr show ?thesis by simp
  qed
qed

subsection \<open>Well-formed graphs\<close>

text \<open>
  Two members of the same kind: two integers, or two pointers, both raw or both shared, of
  one static type.
\<close>

fun same_kind :: "val \<Rightarrow> val \<Rightarrow> bool" where
  "same_kind (VInt _) (VInt _) = True"
| "same_kind (VRaw T _) (VRaw T' _) = (T = T')"
| "same_kind (VShared T _) (VShared T' _) = (T = T')"
| "same_kind _ _ = False"

text \<open>
  A reference with the static type \<open>T\<close> to the address \<open>p\<close> is well formed. Its referent is an
  object of the heap, of a class of the program, with the members of that class. If \<open>T\<close> is
  the dynamic type, \<open>p\<close> is the address of the object and the class is default-constructible.
  Otherwise \<open>p\<close> is the address of a base subobject, and the dynamic type is registered with
  the closures that \<^verbatim>\<open>RegisterClassForArchive\<close> installs for a class with this base: the
  \<^verbatim>\<open>downcaster\<close> takes the address of the base subobject to that of the object, the
  \<^verbatim>\<open>upcaster\<close> back, and the \<^verbatim>\<open>creator\<close> constructs a new object and returns the address of
  its base subobject.
\<close>

definition wf_ref :: "program \<Rightarrow> heap \<Rightarrow> cname \<Rightarrow> addr \<Rightarrow> bool" where
  "wf_ref P h T p \<longleftrightarrow>
     fst p < length h \<and>
     (\<exists>c. classes_of P (dyn (h ! fst p)) = Some c \<and>
        list_all2 same_kind (contents (h ! fst p)) (members c) \<and>
        (if T = dyn (h ! fst p) then snd p = 0 \<and> constructible c
         else \<exists>info. registry_of P (dyn (h ! fst p)) = Some info \<and>
                (\<forall>b. downcaster info T (b, snd p) = Inr (b, 0)) \<and>
                (\<forall>b. upcaster info T (b, 0) = Inr (b, snd p)) \<and>
                (\<forall>h'. creator info T h' =
                   Inr ((length h', snd p),
                        h' @ [\<lparr>dyn = dyn (h ! fst p), contents = members c\<rparr>]))))"

text \<open>Every reference of \<open>R\<close> is well formed.\<close>

definition wf_refs :: "program \<Rightarrow> heap \<Rightarrow> (cname \<times> addr) set \<Rightarrow> bool" where
  "wf_refs P h R \<longleftrightarrow> (\<forall>(T, p) \<in> R. wf_ref P h T p)"

subsection \<open>The reader follows the writer\<close>

text \<open>
  A map \<open>f\<close> takes blocks of the heap written to blocks of the heap loaded. Two pointers
  correspond when both are null or they point to corresponding blocks at the same offset;
  two members when they are equal integers or corresponding pointers of one kind and
  static type; two objects when they have the same dynamic type and corresponding members.
\<close>

fun ptr_rel :: "(nat \<rightharpoonup> nat) \<Rightarrow> addr option \<Rightarrow> addr option \<Rightarrow> bool" where
  "ptr_rel f None None = True"
| "ptr_rel f (Some a) (Some a') = (f (fst a) = Some (fst a') \<and> snd a' = snd a)"
| "ptr_rel f _ _ = False"

fun val_rel :: "(nat \<rightharpoonup> nat) \<Rightarrow> val \<Rightarrow> val \<Rightarrow> bool" where
  "val_rel f (VInt i) (VInt j) = (i = j)"
| "val_rel f (VRaw T p) (VRaw T' p') = (T = T' \<and> ptr_rel f p p')"
| "val_rel f (VShared T p) (VShared T' p') = (T = T' \<and> ptr_rel f p p')"
| "val_rel f _ _ = False"

definition obj_rel :: "(nat \<rightharpoonup> nat) \<Rightarrow> obj \<Rightarrow> obj \<Rightarrow> bool" where
  "obj_rel f x x' \<longleftrightarrow> dyn x' = dyn x \<and> list_all2 (val_rel f) (contents x) (contents x')"

text \<open>
  The invariant between a writer and the reader of its stream. What the writer holds in
  its two tables under a number is, in the vector of the reader, the address of the copy
  under that number; the counters are the lengths of the vectors; \<open>f\<close> maps objects that
  are in the raw table to objects of their dynamic type, and is injective.
\<close>

definition sim :: "(nat \<rightharpoonup> nat) \<Rightarrow> heap \<Rightarrow> Archive \<Rightarrow> Archive \<Rightarrow> heap \<Rightarrow> bool" where
  "sim f h war rar h' \<longleftrightarrow>
     (\<forall>a k. ptr2nr war a = Some k \<longrightarrow>
        snd a = 0 \<and> 0 \<le> k \<and> nat k < length (nr2ptr rar) \<and>
        (\<exists>b'. f (fst a) = Some b' \<and> nr2ptr rar ! nat k = (b', 0))) \<and>
     (\<forall>a k. shared_ptr2nr war a = Some k \<longrightarrow>
        snd a = 0 \<and> 0 \<le> k \<and> nat k < length (nr2shared_ptr rar) \<and>
        (\<exists>b'. f (fst a) = Some b' \<and> nr2shared_ptr rar ! nat k = Some (b', 0))) \<and>
     ptr_count war = int (length (nr2ptr rar)) \<and>
     shared_ptr_count war = int (length (nr2shared_ptr rar)) \<and>
     (\<forall>b b'. f b = Some b' \<longrightarrow>
        b < length h \<and> b' < length h' \<and> dyn (h' ! b') = dyn (h ! b) \<and>
        ptr2nr war (b, 0) \<noteq> None) \<and>
     inj_on f (dom f)"

text \<open>
  What the read of a pointer has done when \<open>f\<close> and \<open>h'\<close> have become \<open>f'\<close> and \<open>h''\<close>: the map
  and the heap have grown, the objects that were there are as they were, and the objects
  that are new in the map are new blocks and copies. \<open>postm\<close> is the same for the read of
  the members \<open>vs\<close> of the object in block \<open>c\<close>, from member \<open>i\<close> on: of that object the
  members before \<open>i\<close> are as they were and those from \<open>i\<close> on correspond to \<open>vs\<close>.
\<close>

definition post :: "(nat \<rightharpoonup> nat) \<Rightarrow> heap \<Rightarrow> heap \<Rightarrow> (nat \<rightharpoonup> nat) \<Rightarrow> heap \<Rightarrow> bool" where
  "post f h h' f' h'' \<longleftrightarrow>
     f \<subseteq>\<^sub>m f' \<and> length h' \<le> length h'' \<and> (\<forall>x < length h'. h'' ! x = h' ! x) \<and>
     (\<forall>b b'. f' b = Some b' \<longrightarrow> f b = None \<longrightarrow> length h' \<le> b' \<and> obj_rel f' (h ! b) (h'' ! b'))"

definition postm ::
    "(nat \<rightharpoonup> nat) \<Rightarrow> heap \<Rightarrow> heap \<Rightarrow> (nat \<rightharpoonup> nat) \<Rightarrow> heap \<Rightarrow> nat \<Rightarrow> nat \<Rightarrow> val list \<Rightarrow> bool" where
  "postm f h h' f' h'' c i vs \<longleftrightarrow>
     f \<subseteq>\<^sub>m f' \<and> length h' \<le> length h'' \<and> (\<forall>x < length h'. x \<noteq> c \<longrightarrow> h'' ! x = h' ! x) \<and>
     dyn (h'' ! c) = dyn (h' ! c) \<and>
     length (contents (h'' ! c)) = length (contents (h' ! c)) \<and>
     (\<forall>j < i. contents (h'' ! c) ! j = contents (h' ! c) ! j) \<and>
     (\<forall>j < length vs. val_rel f' (vs ! j) (contents (h'' ! c) ! (i + j))) \<and>
     (\<forall>b b'. f' b = Some b' \<longrightarrow> f b = None \<longrightarrow> length h' \<le> b' \<and> obj_rel f' (h ! b) (h'' ! b'))"

lemma ptr_rel_mono: "ptr_rel f p p' \<Longrightarrow> f \<subseteq>\<^sub>m f' \<Longrightarrow> ptr_rel f' p p'"
  by (cases "(f, p, p')" rule: ptr_rel.cases) (auto simp: map_le_def dom_def)

lemma val_rel_mono: "val_rel f v v' \<Longrightarrow> f \<subseteq>\<^sub>m f' \<Longrightarrow> val_rel f' v v'"
  by (cases "(f, v, v')" rule: val_rel.cases) (auto intro: ptr_rel_mono)

lemma obj_rel_mono: "obj_rel f x x' \<Longrightarrow> f \<subseteq>\<^sub>m f' \<Longrightarrow> obj_rel f' x x'"
  unfolding obj_rel_def
  by (auto intro: list_all2_mono val_rel_mono)

lemma sim_emit [simp]: "sim f h (emit t war) rar h' = sim f h war rar h'"
  by (simp add: sim_def)

lemma sim_wstream [simp]: "sim f h (war\<lparr>stream := s\<rparr>) rar h' = sim f h war rar h'"
  by (simp add: sim_def)

lemma sim_stream [simp]: "sim f h war (rar\<lparr>stream := s\<rparr>) h' = sim f h war rar h'"
  by (simp add: sim_def)

lemma set_member_length [simp]: "length (set_member h b i v) = length h"
  by (simp add: set_member_def)

lemma set_member_other: "x \<noteq> b \<Longrightarrow> set_member h b i v ! x = h ! x"
  by (simp add: set_member_def)

lemma set_member_same:
  "b < length h \<Longrightarrow> dyn (set_member h b i v ! b) = dyn (h ! b)"
  "b < length h \<Longrightarrow> contents (set_member h b i v ! b) = (contents (h ! b))[i := v]"
  by (simp_all add: set_member_def)

lemma set_member_dyn: "x < length h \<Longrightarrow> dyn (set_member h b i v ! x) = dyn (h ! x)"
  by (cases "x = b") (simp_all add: set_member_def)

lemma sim_set_member [simp]: "sim f h war rar (set_member h' c i v) = sim f h war rar h'"
  by (simp add: sim_def set_member_dyn cong: conj_cong)

text \<open>
  The reader succeeds on what the writer wrote, leaves \<open>rest\<close>, and ends in the invariant
  with the archive \<open>war'\<close> that the writer ended with.
\<close>

definition ptr_step ::
    "program \<Rightarrow> heap \<Rightarrow> nat \<Rightarrow> (nat \<rightharpoonup> nat) \<Rightarrow> Archive \<Rightarrow> cname \<Rightarrow> addr option \<Rightarrow> Archive \<Rightarrow> heap \<Rightarrow>
     token list \<Rightarrow> bool" where
  "ptr_step P h n f war' T p rar h' rest \<longleftrightarrow>
     (\<exists>p' rar' h'' f'. read_ptr P n T rar h' = Inr (p', rar', h'') \<and> stream rar' = rest \<and>
        sim f' h war' rar' h'' \<and> post f h h' f' h'' \<and> ptr_rel f' p p')"

definition shared_step ::
    "program \<Rightarrow> heap \<Rightarrow> nat \<Rightarrow> (nat \<rightharpoonup> nat) \<Rightarrow> Archive \<Rightarrow> cname \<Rightarrow> addr option \<Rightarrow> Archive \<Rightarrow> heap \<Rightarrow>
     token list \<Rightarrow> bool" where
  "shared_step P h n f war' T p rar h' rest \<longleftrightarrow>
     (\<exists>p' rar' h'' f'. read_shared_ptr P n T rar h' = Inr (p', rar', h'') \<and> stream rar' = rest \<and>
        sim f' h war' rar' h'' \<and> post f h h' f' h'' \<and> ptr_rel f' p p')"

definition mem_step ::
    "program \<Rightarrow> heap \<Rightarrow> nat \<Rightarrow> (nat \<rightharpoonup> nat) \<Rightarrow> Archive \<Rightarrow> val list \<Rightarrow> nat \<Rightarrow> nat \<Rightarrow> val list \<Rightarrow>
     Archive \<Rightarrow> heap \<Rightarrow> token list \<Rightarrow> bool" where
  "mem_step P h n f war' vs c i ks rar h' rest \<longleftrightarrow>
     (\<exists>rar' h'' f'. read_members P n c i ks rar h' = Inr (rar', h'') \<and> stream rar' = rest \<and>
        sim f' h war' rar' h'' \<and> postm f h h' f' h'' c i vs)"

text \<open>The same, for every call with fuel \<open>n\<close> that the writer returns from.\<close>

definition ptr_ok :: "program \<Rightarrow> heap \<Rightarrow> nat \<Rightarrow> bool" where
  "ptr_ok P h n \<longleftrightarrow>
     (\<forall>T p war war' f rar h' ts rest.
        write_ptr P h n T p war = Inr war' \<longrightarrow> wf_refs P h (refs_of [VRaw T p]) \<longrightarrow>
        sim f h war rar h' \<longrightarrow> stream war' = stream war @ ts \<longrightarrow> stream rar = ts @ rest \<longrightarrow>
        ptr_step P h n f war' T p rar h' rest)"

definition shared_ok :: "program \<Rightarrow> heap \<Rightarrow> nat \<Rightarrow> bool" where
  "shared_ok P h n \<longleftrightarrow>
     (\<forall>T p war war' f rar h' ts rest.
        write_shared_ptr P h n T p war = Inr war' \<longrightarrow> wf_refs P h (refs_of [VShared T p]) \<longrightarrow>
        sim f h war rar h' \<longrightarrow> stream war' = stream war @ ts \<longrightarrow> stream rar = ts @ rest \<longrightarrow>
        shared_step P h n f war' T p rar h' rest)"

definition mem_ok :: "program \<Rightarrow> heap \<Rightarrow> nat \<Rightarrow> bool" where
  "mem_ok P h n \<longleftrightarrow>
     (\<forall>vs war war' f rar h' ts rest c i ks.
        write_members P h n vs war = Inr war' \<longrightarrow> wf_refs P h (refs_of vs) \<longrightarrow>
        sim f h war rar h' \<longrightarrow> stream war' = stream war @ ts \<longrightarrow> stream rar = ts @ rest \<longrightarrow>
        c < length h' \<longrightarrow> list_all2 same_kind vs ks \<longrightarrow>
        length (contents (h' ! c)) = i + length vs \<longrightarrow>
        mem_step P h n f war' vs c i ks rar h' rest)"

lemma sim_cong:
  assumes "ptr2nr war = ptr2nr war2" "shared_ptr2nr war = shared_ptr2nr war2"
    "ptr_count war = ptr_count war2" "shared_ptr_count war = shared_ptr_count war2"
    "nr2ptr rar = nr2ptr rar2" "nr2shared_ptr rar = nr2shared_ptr rar2"
  shows "sim f h war rar h' = sim f h war2 rar2 h'"
  unfolding sim_def assms ..

lemma post_refl: "post f h h' f h'"
  by (simp add: post_def)

lemma wf_ref_typeid:
  "wf_ref P h T a \<Longrightarrow> typeid_of h a = Inr (dyn (h ! fst a))"
  by (simp add: wf_ref_def typeid_of_def)

lemma wf_ref_reg_ptr:
  "wf_ref P h T a \<Longrightarrow> reg_ptr_of (registry_of P) T (dyn (h ! fst a)) a = Inr (fst a, 0)"
  by (cases a)
    (auto simp: wf_ref_def reg_ptr_of_def IsRegistered_def GetArchiveRegister_def
      split: if_splits)

lemma wf_ref_offset:
  "wf_ref P h T a \<Longrightarrow> snd a \<noteq> 0 \<Longrightarrow> T \<noteq> dyn (h ! fst a)"
  by (auto simp: wf_ref_def)

lemma wf_ref_upcast:
  assumes "wf_ref P h T a" and "T \<noteq> dyn (h ! fst a)"
  shows "\<exists>info. registry_of P (dyn (h ! fst a)) = Some info \<and>
           upcaster info T (b, 0) = Inr (b, snd a) \<and>
           downcaster info T (b, snd a) = Inr (b, 0)"
  using assms by (auto simp: wf_ref_def)

lemma addr_neq: "((fst a, 0) \<noteq> a) = (snd a \<noteq> 0)"
  by (cases a) auto

lemma ptr_stepI:
  assumes "read_ptr P n T rar h' = Inr (p', rar', h'')" and "stream rar' = rest"
    and "sim f' h war' rar' h''" and "post f h h' f' h''" and "ptr_rel f' p p'"
  shows "ptr_step P h n f war' T p rar h' rest"
  unfolding ptr_step_def using assms by blast

lemma shared_stepI:
  assumes "read_shared_ptr P n T rar h' = Inr (p', rar', h'')" and "stream rar' = rest"
    and "sim f' h war' rar' h''" and "post f h h' f' h''" and "ptr_rel f' p p'"
  shows "shared_step P h n f war' T p rar h' rest"
  unfolding shared_step_def using assms by blast

lemma mem_stepI:
  assumes "read_members P n c i ks rar h' = Inr (rar', h'')" and "stream rar' = rest"
    and "sim f' h war' rar' h''" and "postm f h h' f' h'' c i vs"
  shows "mem_step P h n f war' vs c i ks rar h' rest"
  unfolding mem_step_def using assms by blast

lemma ptr_step_null:
  assumes w: "write_ptr P h (Suc n) T None war = Inr war'"
    and s: "sim f h war rar h'"
    and ts: "stream war' = stream war @ ts" "stream rar = ts @ rest"
  shows "ptr_step P h (Suc n) f war' T None rar h' rest"
proof -
  from w have war': "war' = emit (TInt (- 2)) war"
    by (simp add: write_ptr_head_def)
  with ts have "stream rar = TInt (- 2) # rest"
    by simp
  then have r: "read_ptr P (Suc n) T rar h' = Inr (None, rar\<lparr>stream := rest\<rparr>, h')"
    by (simp add: read_ptr_head_def read_int_def)
  have s': "sim f h war' (rar\<lparr>stream := rest\<rparr>) h'"
    using s war' by simp
  show ?thesis
    by (rule ptr_stepI [OF r _ s' post_refl]) simp_all
qed

lemma sim_ptr2nr:
  assumes "sim f h war rar h'" and "ptr2nr war a = Some k"
  shows "snd a = 0 \<and> 0 \<le> k \<and> nat k < length (nr2ptr rar) \<and>
         (\<exists>b'. f (fst a) = Some b' \<and> nr2ptr rar ! nat k = (b', 0))"
  using assms unfolding sim_def by blast

lemma sim_shared_ptr2nr:
  assumes "sim f h war rar h'" and "shared_ptr2nr war a = Some k"
  shows "snd a = 0 \<and> 0 \<le> k \<and> nat k < length (nr2shared_ptr rar) \<and>
         (\<exists>b'. f (fst a) = Some b' \<and> nr2shared_ptr rar ! nat k = Some (b', 0))"
  using assms unfolding sim_def by blast

lemma sim_counts:
  assumes "sim f h war rar h'"
  shows "ptr_count war = int (length (nr2ptr rar))"
    and "shared_ptr_count war = int (length (nr2shared_ptr rar))"
  using assms unfolding sim_def by blast+

lemma sim_map:
  assumes "sim f h war rar h'" and "f b = Some b'"
  shows "b < length h \<and> b' < length h' \<and> dyn (h' ! b') = dyn (h ! b) \<and>
         ptr2nr war (b, 0) \<noteq> None"
  using assms unfolding sim_def by blast

lemma sim_inj: "sim f h war rar h' \<Longrightarrow> inj_on f (dom f)"
  unfolding sim_def by blast

lemma ptr_step_found:
  assumes w: "write_ptr P h (Suc n) T (Some a) war = Inr war'"
    and wf: "wf_ref P h T a"
    and s: "sim f h war rar h'"
    and ts: "stream war' = stream war @ ts" "stream rar = ts @ rest"
    and k: "ptr2nr war (fst a, 0) = Some k"
  shows "ptr_step P h (Suc n) f war' T (Some a) rar h' rest"
proof -
  let ?D = "dyn (h ! fst a)"
  from write_ptr_back_reference [OF wf_ref_typeid [OF wf] wf_ref_reg_ptr [OF wf] k, of n] w
  have war': "war' = war\<lparr>stream := stream war @ [TInt k, TBool (snd a \<noteq> 0), TStr ?D]\<rparr>"
    by (simp add: addr_neq)
  with ts have rar: "stream rar = TInt k # TBool (snd a \<noteq> 0) # TStr ?D # rest"
    by simp
  from sim_ptr2nr [OF s k] obtain b' where k0: "0 \<le> k" and kl: "nat k < length (nr2ptr rar)"
    and f: "f (fst a) = Some b'" and nth: "nr2ptr rar ! nat k = (b', 0)"
    by auto
  have r: "read_ptr P (Suc n) T rar h' = Inr (Some (b', snd a), rar\<lparr>stream := rest\<rparr>, h')"
  proof (cases "snd a = 0")
    case True
    have "(snd a \<noteq> 0) \<longrightarrow> registry_of P ?D = Some undefined \<and>
        upcaster undefined T (nr2ptr rar ! nat k) = Inr undefined"
      using True by simp
    from read_ptr_back_reference [OF rar k0 kl this, of n h'] True nth
    show ?thesis by simp
  next
    case False
    from wf_ref_upcast [OF wf wf_ref_offset [OF wf False], of b'] obtain info where
      "registry_of P ?D = Some info" "upcaster info T (b', 0) = Inr (b', snd a)"
      by blast
    then have "(snd a \<noteq> 0) \<longrightarrow> registry_of P ?D = Some info \<and>
        upcaster info T (nr2ptr rar ! nat k) = Inr (b', snd a)"
      using nth by simp
    from read_ptr_back_reference [OF rar k0 kl this, of n h'] False
    show ?thesis by simp
  qed
  have s': "sim f h war' (rar\<lparr>stream := rest\<rparr>) h'"
    unfolding war' using s by simp
  show ?thesis
    by (rule ptr_stepI [OF r _ s' post_refl]) (simp_all add: f)
qed

lemma sim_new:
  assumes s: "sim f h war rar h'" and new: "ptr2nr war (b, 0) = None"
    and b: "b < length h" and D: "dyn x = dyn (h ! b)"
  shows "sim (f(b \<mapsto> length h')) h
           (war\<lparr>ptr2nr := (ptr2nr war)((b, 0) \<mapsto> ptr_count war), ptr_count := ptr_count war + 1\<rparr>)
           (rar\<lparr>nr2ptr := nr2ptr rar @ [(length h', 0)]\<rparr>) (h' @ [x])"
    and "f b = None"
proof -
  from s have
    s1: "\<And>a k. ptr2nr war a = Some k \<Longrightarrow>
          snd a = 0 \<and> 0 \<le> k \<and> nat k < length (nr2ptr rar) \<and>
          (\<exists>b'. f (fst a) = Some b' \<and> nr2ptr rar ! nat k = (b', 0))"
    and s2: "\<And>a k. shared_ptr2nr war a = Some k \<Longrightarrow>
          snd a = 0 \<and> 0 \<le> k \<and> nat k < length (nr2shared_ptr rar) \<and>
          (\<exists>b'. f (fst a) = Some b' \<and> nr2shared_ptr rar ! nat k = Some (b', 0))"
    and s3: "ptr_count war = int (length (nr2ptr rar))"
      "shared_ptr_count war = int (length (nr2shared_ptr rar))"
    and s4: "\<And>y y'. f y = Some y' \<Longrightarrow>
          y < length h \<and> y' < length h' \<and> dyn (h' ! y') = dyn (h ! y) \<and> ptr2nr war (y, 0) \<noteq> None"
    and s5: "inj_on f (dom f)"
    unfolding sim_def by blast+
  show fb: "f b = None"
    using s4 [of b] new by (cases "f b") auto
  let ?f = "f(b \<mapsto> length h')"
  let ?war = "war\<lparr>ptr2nr := (ptr2nr war)((b, 0) \<mapsto> ptr_count war),
                   ptr_count := ptr_count war + 1\<rparr>"
  let ?rar = "rar\<lparr>nr2ptr := nr2ptr rar @ [(length h', 0)]\<rparr>"
  have c1: "snd a = 0 \<and> 0 \<le> k \<and> nat k < length (nr2ptr ?rar) \<and>
      (\<exists>b'. ?f (fst a) = Some b' \<and> nr2ptr ?rar ! nat k = (b', 0))"
    if "ptr2nr ?war a = Some k" for a k
  proof (cases "a = (b, 0)")
    case True
    with that have "k = int (length (nr2ptr rar))"
      using s3 by simp
    with True show ?thesis by simp
  next
    case False
    with that have old: "ptr2nr war a = Some k" by simp
    from s1 [OF old] False have "fst a \<noteq> b"
      by (cases a) auto
    with s1 [OF old] show ?thesis
      by (auto simp: nth_append)
  qed
  have c2: "snd a = 0 \<and> 0 \<le> k \<and> nat k < length (nr2shared_ptr ?rar) \<and>
      (\<exists>b'. ?f (fst a) = Some b' \<and> nr2shared_ptr ?rar ! nat k = Some (b', 0))"
    if "shared_ptr2nr ?war a = Some k" for a k
  proof -
    from that have old: "shared_ptr2nr war a = Some k" by simp
    from s2 [OF old] fb have "fst a \<noteq> b" by auto
    with s2 [OF old] show ?thesis by auto
  qed
  have c4: "y < length h \<and> y' < length (h' @ [x]) \<and> dyn ((h' @ [x]) ! y') = dyn (h ! y) \<and>
      ptr2nr ?war (y, 0) \<noteq> None"
    if "?f y = Some y'" for y y'
  proof (cases "y = b")
    case True
    with that have "y' = length h'" by simp
    with True b D show ?thesis by simp
  next
    case False
    with that have "f y = Some y'" by simp
    from s4 [OF this] show ?thesis
      by (simp add: nth_append)
  qed
  have c5: "inj_on ?f (dom ?f)"
  proof (rule inj_onI)
    fix y z
    assume yz: "y \<in> dom ?f" "z \<in> dom ?f" "?f y = ?f z"
    have lt: "v' < length h'" if "f v = Some v'" for v v'
      using s4 [OF that] by simp
    show "y = z"
    proof (cases "y = b")
      case True
      show ?thesis
      proof (cases "z = b")
        case True
        with \<open>y = b\<close> show ?thesis by simp
      next
        case False
        with yz True lt [of z] show ?thesis by auto
      qed
    next
      case False
      show ?thesis
      proof (cases "z = b")
        case True
        with yz False lt [of y] show ?thesis by auto
      next
        case zb: False
        with False yz have "y \<in> dom f" "z \<in> dom f" "f y = f z" by auto
        with s5 show ?thesis by (auto dest: inj_onD)
      qed
    qed
  qed
  show "sim ?f h ?war ?rar (h' @ [x])"
    unfolding sim_def using c1 c2 c4 c5 s3 by simp
qed

lemma new_heads:
  assumes wf: "wf_ref P h T a" and new: "ptr2nr war (fst a, 0) = None"
  shows "\<exists>hdr (c :: class_info).
    write_ptr_head (registry_of P) (classes_of P) h T (Some a) war =
       Inr (war\<lparr>ptr2nr := (ptr2nr war)((fst a, 0) \<mapsto> ptr_count war),
                ptr_count := ptr_count war + 1, stream := stream war @ hdr\<rparr>,
            Some (contents (h ! fst a))) \<and>
    list_all2 same_kind (contents (h ! fst a)) (members c) \<and>
    (\<forall>rar h' more. stream rar = hdr @ more \<longrightarrow>
       read_ptr_head (registry_of P) (classes_of P) T rar h' =
         Inr (Some (length h', snd a),
              rar\<lparr>stream := more, nr2ptr := nr2ptr rar @ [(length h', 0)]\<rparr>,
              h' @ [\<lparr>dyn = dyn (h ! fst a), contents = members c\<rparr>], True))"
proof -
  let ?D = "dyn (h ! fst a)"
  note ty = wf_ref_typeid [OF wf] and rp = wf_ref_reg_ptr [OF wf]
  from wf obtain c where c: "classes_of P ?D = Some c"
    and k: "list_all2 same_kind (contents (h ! fst a)) (members c)"
    and e: "T = ?D \<Longrightarrow> snd a = 0 \<and> constructible c"
    and p: "T \<noteq> ?D \<Longrightarrow> \<exists>info. registry_of P ?D = Some info \<and>
          (\<forall>b. downcaster info T (b, snd a) = Inr (b, 0)) \<and>
          (\<forall>h'. creator info T h' =
             Inr ((length h', snd a), h' @ [\<lparr>dyn = ?D, contents = members c\<rparr>]))"
    unfolding wf_ref_def by (auto split: if_splits)
  show ?thesis
  proof (cases "T = ?D")
    case True
    have w: "write_ptr_head (registry_of P) (classes_of P) h T (Some a) war =
       Inr (war\<lparr>ptr2nr := (ptr2nr war)((fst a, 0) \<mapsto> ptr_count war),
                ptr_count := ptr_count war + 1, stream := stream war @ [TInt (- 1)]\<rparr>,
            Some (contents (h ! fst a)))"
      using ty rp new True c e
      by (simp add: write_ptr_head_def is_constructible_def emit_def)
    have r: "read_ptr_head (registry_of P) (classes_of P) T rar h' =
         Inr (Some (length h', snd a),
              rar\<lparr>stream := more, nr2ptr := nr2ptr rar @ [(length h', 0)]\<rparr>,
              h' @ [\<lparr>dyn = ?D, contents = members c\<rparr>], True)"
      if "stream rar = [TInt (- 1)] @ more" for rar h' more
      using that True c e
      by (simp add: read_ptr_head_def read_int_def constructIfPossible_def)
    from w k r show ?thesis
      by (intro exI [of _ "[TInt (- 1)]"] exI [of _ c]) blast
  next
    case False
    from p [OF False] obtain info where i: "registry_of P ?D = Some info"
      and d: "\<And>b. downcaster info T (b, snd a) = Inr (b, 0)"
      and cr: "\<And>h'. creator info T h' =
             Inr ((length h', snd a), h' @ [\<lparr>dyn = ?D, contents = members c\<rparr>])"
      by blast
    have w: "write_ptr_head (registry_of P) (classes_of P) h T (Some a) war =
       Inr (war\<lparr>ptr2nr := (ptr2nr war)((fst a, 0) \<mapsto> ptr_count war),
                ptr_count := ptr_count war + 1,
                stream := stream war @ [TInt (- 3), TStr ?D]\<rparr>,
            Some (contents (h ! fst a)))"
      using ty rp new False i
      by (simp add: write_ptr_head_def IsRegistered_def emit_def)
    have r: "read_ptr_head (registry_of P) (classes_of P) T rar h' =
         Inr (Some (length h', snd a),
              rar\<lparr>stream := more, nr2ptr := nr2ptr rar @ [(length h', 0)]\<rparr>,
              h' @ [\<lparr>dyn = ?D, contents = members c\<rparr>], True)"
      if "stream rar = [TInt (- 3), TStr ?D] @ more" for rar h' more
      using that i d cr
      by (simp add: read_ptr_head_def read_int_def read_name_def GetArchiveRegister_def)
    from w k r show ?thesis
      by (intro exI [of _ "[TInt (- 3), TStr ?D]"] exI [of _ c]) blast
  qed
qed

lemma map_le_upd: "f b = None \<Longrightarrow> f \<subseteq>\<^sub>m f(b \<mapsto> v)"
  by (auto simp: map_le_def)

lemma map_le_lookup: "f \<subseteq>\<^sub>m f' \<Longrightarrow> f b = Some v \<Longrightarrow> f' b = Some v"
  by (auto simp: map_le_def dom_def)

lemma post_from_new:
  assumes pm: "postm (f(b \<mapsto> length h')) h (h' @ [x]) f' h'' (length h') 0 vs"
    and fb: "f b = None" and vs: "vs = contents (h ! b)"
    and D: "dyn x = dyn (h ! b)" and len: "length (contents x) = length vs"
  shows "post f h h' f' h''"
proof -
  let ?c = "length h'"
  let ?f1 = "f(b \<mapsto> ?c)"
  from pm have le: "?f1 \<subseteq>\<^sub>m f'" and l: "length (h' @ [x]) \<le> length h''"
    and old: "\<And>y. y < length (h' @ [x]) \<Longrightarrow> y \<noteq> ?c \<Longrightarrow> h'' ! y = (h' @ [x]) ! y"
    and d: "dyn (h'' ! ?c) = dyn ((h' @ [x]) ! ?c)"
    and lc: "length (contents (h'' ! ?c)) = length (contents ((h' @ [x]) ! ?c))"
    and vr: "\<And>j. j < length vs \<Longrightarrow> val_rel f' (vs ! j) (contents (h'' ! ?c) ! (0 + j))"
    and nw: "\<And>y y'. f' y = Some y' \<Longrightarrow> ?f1 y = None \<Longrightarrow>
          length (h' @ [x]) \<le> y' \<and> obj_rel f' (h ! y) (h'' ! y')"
    unfolding postm_def by blast+
  have 1: "f \<subseteq>\<^sub>m f'"
    using map_le_upd [of f b ?c] fb le by (blast intro: map_le_trans)
  have 2: "length h' \<le> length h''"
    using l by simp
  have 3: "h'' ! y = h' ! y" if "y < length h'" for y
    using old [of y] that by (simp add: nth_append)
  have 4: "length h' \<le> y' \<and> obj_rel f' (h ! y) (h'' ! y')" if "f' y = Some y'" "f y = None" for y y'
  proof (cases "y = b")
    case True
    have "f' b = Some ?c"
      using map_le_lookup [OF le, of b ?c] by simp
    with that True have y': "y' = ?c" by simp
    have "list_all2 (val_rel f') vs (contents (h'' ! ?c))"
      using lc len vr by (intro list_all2_all_nthI) simp_all
    with d D vs True y' show ?thesis
      by (simp add: obj_rel_def)
  next
    case False
    with that have "?f1 y = None" by simp
    from nw [OF that(1) this] show ?thesis by simp
  qed
  from 1 2 3 4 show ?thesis
    unfolding post_def by blast
qed

lemma ptr_step_new:
  assumes ih: "mem_ok P h n" and wfh: "wf_refs P h (references h)"
    and w: "write_ptr P h (Suc n) T (Some a) war = Inr war'"
    and wf: "wf_ref P h T a" and s: "sim f h war rar h'"
    and ts: "stream war' = stream war @ ts" "stream rar = ts @ rest"
    and new: "ptr2nr war (fst a, 0) = None"
  shows "ptr_step P h (Suc n) f war' T (Some a) rar h' rest"
proof -
  let ?b = "fst a"
  let ?vs = "contents (h ! ?b)"
  let ?c = "length h'"
  from new_heads [OF wf new] obtain hdr and c :: class_info where
    hw: "write_ptr_head (registry_of P) (classes_of P) h T (Some a) war =
       Inr (war\<lparr>ptr2nr := (ptr2nr war)((?b, 0) \<mapsto> ptr_count war),
                ptr_count := ptr_count war + 1, stream := stream war @ hdr\<rparr>, Some ?vs)"
    and k: "list_all2 same_kind ?vs (members c)"
    and hr: "\<And>rar h' more. stream rar = hdr @ more \<Longrightarrow>
       read_ptr_head (registry_of P) (classes_of P) T rar h' =
         Inr (Some (length h', snd a),
              rar\<lparr>stream := more, nr2ptr := nr2ptr rar @ [(length h', 0)]\<rparr>,
              h' @ [\<lparr>dyn = dyn (h ! ?b), contents = members c\<rparr>], True)"
    by blast
  let ?war1 = "war\<lparr>ptr2nr := (ptr2nr war)((?b, 0) \<mapsto> ptr_count war),
                ptr_count := ptr_count war + 1, stream := stream war @ hdr\<rparr>"
  let ?x = "\<lparr>dyn = dyn (h ! ?b), contents = members c\<rparr>"
  let ?h1 = "h' @ [?x]"
  let ?f1 = "f(?b \<mapsto> ?c)"
  from w hw have m: "write_members P h n ?vs ?war1 = Inr war'"
    by simp
  from write_extends(3) [OF m] obtain ts' where ts': "stream war' = stream ?war1 @ ts'"
    unfolding extends_def by blast
  with ts have tsr: "stream rar = hdr @ (ts' @ rest)"
    by simp
  let ?rar1 = "rar\<lparr>stream := ts' @ rest, nr2ptr := nr2ptr rar @ [(?c, 0)]\<rparr>"
  note rh = hr [OF tsr, of h']
  from wf have b: "?b < length h"
    by (simp add: wf_ref_def)
  have s1: "sim ?f1 h ?war1 ?rar1 ?h1"
    by (rule iffD2 [OF sim_cong sim_new(1) [OF s new b, of ?x]]) simp_all
  have fb: "f ?b = None"
    by (rule sim_new(2) [OF s new b, of ?x]) simp
  have wfv: "wf_refs P h (refs_of ?vs)"
    using wfh refs_of_contents [OF b] unfolding wf_refs_def by blast
  have len: "length (members c) = length ?vs"
    using k by (simp add: list_all2_lengthD)
  from ih [unfolded mem_ok_def, rule_format, OF m wfv s1 ts', of rest ?c "members c" 0]
    k len
  have "mem_step P h n ?f1 war' ?vs ?c 0 (members c) ?rar1 ?h1 rest"
    by simp
  then obtain rar' h'' f' where
    rm: "read_members P n ?c 0 (members c) ?rar1 ?h1 = Inr (rar', h'')"
    and st: "stream rar' = rest" and s': "sim f' h war' rar' h''"
    and pm: "postm ?f1 h ?h1 f' h'' ?c 0 ?vs"
    unfolding mem_step_def by blast
  have r: "read_ptr P (Suc n) T rar h' = Inr (Some (?c, snd a), rar', h'')"
    using rh rm by simp
  have po: "post f h h' f' h''"
    by (rule post_from_new [OF pm fb refl]) (simp_all add: len)
  have "f' ?b = Some ?c"
    using pm map_le_lookup [of ?f1 f' ?b ?c] unfolding postm_def by simp
  then have pr: "ptr_rel f' (Some a) (Some (?c, snd a))"
    by simp
  from r st s' po pr show ?thesis
    by (rule ptr_stepI)
qed

lemma ptr_ok_Suc:
  assumes ih: "mem_ok P h n" and wfh: "wf_refs P h (references h)"
  shows "ptr_ok P h (Suc n)"
  unfolding ptr_ok_def
proof (intro allI impI)
  fix T p war war' f rar h' ts rest
  assume w: "write_ptr P h (Suc n) T p war = Inr war'"
    and wf: "wf_refs P h (refs_of [VRaw T p])"
    and s: "sim f h war rar h'"
    and ts: "stream war' = stream war @ ts" "stream rar = ts @ rest"
  show "ptr_step P h (Suc n) f war' T p rar h' rest"
  proof (cases p)
    case None
    with w s ts show ?thesis
      by (simp only: ptr_step_null)
  next
    case (Some a)
    with wf have wfa: "wf_ref P h T a"
      using refs_of_single(1) [of T a] unfolding wf_refs_def by blast
    show ?thesis
    proof (cases "ptr2nr war (fst a, 0)")
      case None
      from ptr_step_new [OF ih wfh w [unfolded Some] wfa s ts None] Some show ?thesis
        by simp
    next
      case k: (Some k)
      from ptr_step_found [OF w [unfolded Some] wfa s ts k] Some show ?thesis
        by simp
    qed
  qed
qed

lemma nd_eq:
  assumes "wf_ref P h T a"
  shows "(T \<noteq> dyn (h ! fst a) \<and> (fst a, 0) \<noteq> a) = (snd a \<noteq> 0)"
  using wf_ref_offset [OF assms] by (auto simp: addr_neq)

lemma sim_shared_new:
  assumes s: "sim f h war rar h'" and fb: "f b = Some b'"
  shows "sim f h
           (war\<lparr>shared_ptr2nr := (shared_ptr2nr war)((b, 0) \<mapsto> shared_ptr_count war),
                 shared_ptr_count := shared_ptr_count war + 1\<rparr>)
           (rar\<lparr>nr2shared_ptr := nr2shared_ptr rar @ [Some (b', 0)]\<rparr>) h'"
proof -
  note s1 = sim_ptr2nr [OF s] and s2 = sim_shared_ptr2nr [OF s] and s3 = sim_counts [OF s]
    and s4 = sim_map [OF s] and s5 = sim_inj [OF s]
  let ?war = "war\<lparr>shared_ptr2nr := (shared_ptr2nr war)((b, 0) \<mapsto> shared_ptr_count war),
                 shared_ptr_count := shared_ptr_count war + 1\<rparr>"
  let ?rar = "rar\<lparr>nr2shared_ptr := nr2shared_ptr rar @ [Some (b', 0)]\<rparr>"
  have c1: "snd a = 0 \<and> 0 \<le> k \<and> nat k < length (nr2ptr ?rar) \<and>
      (\<exists>b'. f (fst a) = Some b' \<and> nr2ptr ?rar ! nat k = (b', 0))"
    if "ptr2nr ?war a = Some k" for a k
    using s1 [of a k] that by simp
  have c2: "snd a = 0 \<and> 0 \<le> k \<and> nat k < length (nr2shared_ptr ?rar) \<and>
      (\<exists>b'. f (fst a) = Some b' \<and> nr2shared_ptr ?rar ! nat k = Some (b', 0))"
    if "shared_ptr2nr ?war a = Some k" for a k
  proof (cases "a = (b, 0)")
    case True
    with that have "k = int (length (nr2shared_ptr rar))"
      using s3 by simp
    with True fb show ?thesis by simp
  next
    case False
    with that have old: "shared_ptr2nr war a = Some k" by simp
    from s2 [OF old] show ?thesis
      by (auto simp: nth_append)
  qed
  have c4: "y < length h \<and> y' < length h' \<and> dyn (h' ! y') = dyn (h ! y) \<and>
      ptr2nr ?war (y, 0) \<noteq> None"
    if "f y = Some y'" for y y'
    using s4 [OF that] by simp
  show ?thesis
    unfolding sim_def using c1 c2 c4 s5 s3 by simp
qed

lemma shared_step_null:
  assumes w: "write_shared_ptr P h (Suc n) T None war = Inr war'"
    and s: "sim f h war rar h'"
    and ts: "stream war' = stream war @ ts" "stream rar = ts @ rest"
  shows "shared_step P h (Suc n) f war' T None rar h' rest"
proof -
  from w have war': "war' = emit (TInt (- 2)) war"
    by (simp add: write_shared_head_def)
  with ts have "stream rar = TInt (- 2) # rest"
    by simp
  then have r: "read_shared_ptr P (Suc n) T rar h' = Inr (None, rar\<lparr>stream := rest\<rparr>, h')"
    by (simp add: read_shared_head_def read_int_def)
  have s': "sim f h war' (rar\<lparr>stream := rest\<rparr>) h'"
    using s war' by simp
  show ?thesis
    by (rule shared_stepI [OF r _ s' post_refl]) simp_all
qed

lemma shared_step_found:
  assumes w: "write_shared_ptr P h (Suc n) T (Some a) war = Inr war'"
    and wf: "wf_ref P h T a"
    and s: "sim f h war rar h'"
    and ts: "stream war' = stream war @ ts" "stream rar = ts @ rest"
    and k: "shared_ptr2nr war (fst a, 0) = Some k"
  shows "shared_step P h (Suc n) f war' T (Some a) rar h' rest"
proof -
  let ?D = "dyn (h ! fst a)"
  let ?nd = "snd a \<noteq> 0"
  from write_shared_back_reference [OF wf_ref_typeid [OF wf] wf_ref_reg_ptr [OF wf] k, of n] w
  have war': "war' = war\<lparr>stream := stream war @ TInt k # TBool ?nd #
      (if ?nd then [TStr ?D] else [])\<rparr>"
    unfolding nd_eq [OF wf] by simp
  with ts have rar: "stream rar = TInt k # TBool ?nd # (if ?nd then [TStr ?D] else []) @ rest"
    by simp
  from sim_shared_ptr2nr [OF s k] obtain b' where k0: "0 \<le> k"
    and kl: "nat k < length (nr2shared_ptr rar)"
    and f: "f (fst a) = Some b'" and nth: "nr2shared_ptr rar ! nat k = Some (b', 0)"
    by auto
  have r: "read_shared_ptr P (Suc n) T rar h' = Inr (Some (b', snd a), rar\<lparr>stream := rest\<rparr>, h')"
  proof (cases "snd a = 0")
    case True
    have "?nd \<longrightarrow> registry_of P ?D = Some undefined \<and>
        cast_nonnull (upcaster undefined T) (nr2shared_ptr rar ! nat k) = Inr undefined"
      using True by simp
    from read_shared_back_reference [OF rar k0 kl this, of n h'] True nth
    show ?thesis by simp
  next
    case False
    from wf_ref_upcast [OF wf wf_ref_offset [OF wf False], of b'] obtain info where
      "registry_of P ?D = Some info" "upcaster info T (b', 0) = Inr (b', snd a)"
      by blast
    then have "?nd \<longrightarrow> registry_of P ?D = Some info \<and>
        cast_nonnull (upcaster info T) (nr2shared_ptr rar ! nat k) = Inr (b', snd a)"
      using nth by (simp add: cast_nonnull_def)
    from read_shared_back_reference [OF rar k0 kl this, of n h'] False
    show ?thesis by simp
  qed
  have s': "sim f h war' (rar\<lparr>stream := rest\<rparr>) h'"
    unfolding war' using s by simp
  show ?thesis
    by (rule shared_stepI [OF r _ s' post_refl]) (simp_all add: f)
qed

lemma shared_step_new:
  assumes ih: "ptr_ok P h n"
    and w: "write_shared_ptr P h (Suc n) T (Some a) war = Inr war'"
    and wf: "wf_ref P h T a" and s: "sim f h war rar h'"
    and ts: "stream war' = stream war @ ts" "stream rar = ts @ rest"
    and new: "shared_ptr2nr war (fst a, 0) = None"
  shows "shared_step P h (Suc n) f war' T (Some a) rar h' rest"
proof -
  let ?D = "dyn (h ! fst a)"
  let ?nd = "snd a \<noteq> 0"
  let ?ar1 = "emit (TBool ?nd) (emit (TInt (- 1)) war)"
  let ?tail = "if ?nd then [TStr ?D] else []"
  note ty = wf_ref_typeid [OF wf] and rp = wf_ref_reg_ptr [OF wf]
  have hd: "write_shared_head (registry_of P) h T (Some a) war =
      Inr (?ar1, Some ((fst a, 0), ?nd, ?D))"
    using ty rp new by (simp add: write_shared_head_def Let_def nd_eq [OF wf])
  with w obtain ar2 where w2: "write_ptr P h n T (Some a) ?ar1 = Inr ar2"
    and war': "war' = write_shared_tail ((fst a, 0), ?nd, ?D) ar2"
    by (auto split: sum.splits)
  from write_extends(1) [OF w2] obtain ts2 where ts2: "stream ar2 = stream ?ar1 @ ts2"
    unfolding extends_def by blast
  have st': "stream war' = stream ar2 @ ?tail"
    unfolding war' by (simp add: write_shared_tail_def Let_def)
  with ts ts2 have tsr: "stream rar = TInt (- 1) # TBool ?nd # ts2 @ ?tail @ rest"
    by simp
  let ?rar2 = "rar\<lparr>stream := ts2 @ ?tail @ rest\<rparr>"
  have rh: "read_shared_head (registry_of P) T rar = Inr (Inr (?nd, ?rar2))"
    using tsr by (simp add: read_shared_head_def read_int_def read_flag_def)
  have s1: "sim f h ?ar1 ?rar2 h'"
    using s by simp
  have wfr: "wf_refs P h (refs_of [VRaw T (Some a)])"
    using wf by (simp add: wf_refs_def refs_of_def)
  from ih [unfolded ptr_ok_def, rule_format, OF w2 wfr s1 ts2, of "?tail @ rest"]
  have "ptr_step P h n f ar2 T (Some a) ?rar2 h' (?tail @ rest)"
    by simp
  then obtain p' rar3 h'' f' where
    r3: "read_ptr P n T ?rar2 h' = Inr (p', rar3, h'')"
    and st3: "stream rar3 = ?tail @ rest" and s3: "sim f' h ar2 rar3 h''"
    and po: "post f h h' f' h''" and pr: "ptr_rel f' (Some a) p'"
    unfolding ptr_step_def by blast
  from pr obtain b' where p': "p' = Some (b', snd a)" and fb: "f' (fst a) = Some b'"
    by (cases p') (auto simp: prod_eq_iff)
  let ?rar4 = "rar3\<lparr>stream := rest, nr2shared_ptr := nr2shared_ptr rar3 @ [Some (b', 0)]\<rparr>"
  have rt: "read_shared_tail (registry_of P) T ?nd p' rar3 = Inr (p', ?rar4)"
  proof (cases "snd a = 0")
    case True
    with st3 have "rar3\<lparr>nr2shared_ptr := nr2shared_ptr rar3 @ [Some (b', 0)]\<rparr> = ?rar4"
      by simp
    with True p' show ?thesis
      by (simp add: read_shared_tail_def)
  next
    case False
    from wf_ref_upcast [OF wf wf_ref_offset [OF wf False], of b'] obtain info where
      "registry_of P ?D = Some info" "downcaster info T (b', snd a) = Inr (b', 0)"
      by blast
    with False p' st3 show ?thesis
      by (simp add: read_shared_tail_def read_name_def GetArchiveRegister_def cast_nonnull_def)
  qed
  have r: "read_shared_ptr P (Suc n) T rar h' = Inr (p', ?rar4, h'')"
    using rh r3 rt by simp
  have s4: "sim f' h war' ?rar4 h''"
    by (rule iffD2 [OF sim_cong sim_shared_new [OF s3 fb]])
      (simp_all add: war' write_shared_tail_def Let_def)
  show ?thesis
    by (rule shared_stepI [OF r _ s4 po pr]) simp
qed

lemma shared_ok_Suc:
  assumes ih: "ptr_ok P h n"
  shows "shared_ok P h (Suc n)"
  unfolding shared_ok_def
proof (intro allI impI)
  fix T p war war' f rar h' ts rest
  assume w: "write_shared_ptr P h (Suc n) T p war = Inr war'"
    and wf: "wf_refs P h (refs_of [VShared T p])"
    and s: "sim f h war rar h'"
    and ts: "stream war' = stream war @ ts" "stream rar = ts @ rest"
  show "shared_step P h (Suc n) f war' T p rar h' rest"
  proof (cases p)
    case None
    with w s ts show ?thesis
      by (simp only: shared_step_null)
  next
    case (Some a)
    with wf have wfa: "wf_ref P h T a"
      using refs_of_single(2) [of T a] unfolding wf_refs_def by blast
    show ?thesis
    proof (cases "shared_ptr2nr war (fst a, 0)")
      case None
      from shared_step_new [OF ih w [unfolded Some] wfa s ts None] Some show ?thesis
        by simp
    next
      case k: (Some k)
      from shared_step_found [OF w [unfolded Some] wfa s ts k] Some show ?thesis
        by simp
    qed
  qed
qed

lemma ok_0: "ptr_ok P h 0" "shared_ok P h 0"
  by (simp_all add: ptr_ok_def shared_ok_def)

lemma postm_Nil: "postm f h h' f h' c i []"
  by (simp add: postm_def)

lemma postm_step:
  assumes po: "post f h h' f1 h1" and s1: "sim f1 h war1 rar1 h1"
    and pm: "postm f1 h (set_member h1 c i v') f' h'' c (Suc i) vs"
    and vr: "val_rel f1 v v'" and c: "c < length h'"
    and len: "length (contents (h' ! c)) = i + length (v # vs)"
  shows "postm f h h' f' h'' c i (v # vs)"
proof -
  let ?H = "set_member h1 c i v'"
  from po have le1: "f \<subseteq>\<^sub>m f1" and l1: "length h' \<le> length h1"
    and fr1: "\<And>x. x < length h' \<Longrightarrow> h1 ! x = h' ! x"
    and nw1: "\<And>b b'. f1 b = Some b' \<Longrightarrow> f b = None \<Longrightarrow>
          length h' \<le> b' \<and> obj_rel f1 (h ! b) (h1 ! b')"
    unfolding post_def by blast+
  from pm have le2: "f1 \<subseteq>\<^sub>m f'" and l2: "length ?H \<le> length h''"
    and fr2: "\<And>x. x < length ?H \<Longrightarrow> x \<noteq> c \<Longrightarrow> h'' ! x = ?H ! x"
    and d2: "dyn (h'' ! c) = dyn (?H ! c)"
    and lc2: "length (contents (h'' ! c)) = length (contents (?H ! c))"
    and old2: "\<And>j. j < Suc i \<Longrightarrow> contents (h'' ! c) ! j = contents (?H ! c) ! j"
    and vr2: "\<And>j. j < length vs \<Longrightarrow> val_rel f' (vs ! j) (contents (h'' ! c) ! (Suc i + j))"
    and nw2: "\<And>b b'. f' b = Some b' \<Longrightarrow> f1 b = None \<Longrightarrow>
          length ?H \<le> b' \<and> obj_rel f' (h ! b) (h'' ! b')"
    unfolding postm_def by blast+
  have c1: "c < length h1"
    using c l1 by simp
  have Hd: "dyn (?H ! c) = dyn (h' ! c)"
    using set_member_same(1) [OF c1, of i v'] fr1 [OF c] by simp
  have Hc: "contents (?H ! c) = (contents (h' ! c))[i := v']"
    using set_member_same(2) [OF c1, of i v'] fr1 [OF c] by simp
  have il: "i < length (contents (h' ! c))"
    using len by simp
  have g1: "f \<subseteq>\<^sub>m f'"
    using le1 le2 by (rule map_le_trans)
  have g2: "length h' \<le> length h''"
    using l1 l2 by simp
  have g3: "h'' ! x = h' ! x" if "x < length h'" "x \<noteq> c" for x
  proof -
    have "x < length ?H" using that l1 by simp
    from fr2 [OF this that(2)] have "h'' ! x = ?H ! x" .
    also have "\<dots> = h1 ! x" using that(2) by (rule set_member_other)
    also have "\<dots> = h' ! x" using that(1) by (rule fr1)
    finally show ?thesis .
  qed
  have g4: "dyn (h'' ! c) = dyn (h' ! c)"
    using d2 Hd by simp
  have g5: "length (contents (h'' ! c)) = length (contents (h' ! c))"
    using lc2 Hc by simp
  have g6: "contents (h'' ! c) ! j = contents (h' ! c) ! j" if "j < i" for j
    using old2 [of j] that Hc by simp
  have g7: "val_rel f' ((v # vs) ! j) (contents (h'' ! c) ! (i + j))" if "j < length (v # vs)" for j
  proof (cases j)
    case 0
    have "contents (h'' ! c) ! i = v'"
      using old2 [of i] Hc il by simp
    moreover have "val_rel f' v v'"
      using vr le2 by (rule val_rel_mono)
    ultimately show ?thesis
      using 0 by simp
  next
    case (Suc j')
    with that vr2 [of j'] show ?thesis by simp
  qed
  have g8: "length h' \<le> b' \<and> obj_rel f' (h ! b) (h'' ! b')"
    if "f' b = Some b'" "f b = None" for b b'
  proof (cases "f1 b")
    case None
    from nw2 [OF that(1) None] l1 show ?thesis by simp
  next
    case (Some b1)
    from map_le_lookup [OF le2 Some] that(1) have b1: "b1 = b'" by simp
    from nw1 [OF Some that(2)] b1 have lb: "length h' \<le> b'"
      and orl: "obj_rel f1 (h ! b) (h1 ! b')"
      by simp_all
    from sim_map [OF s1 Some] b1 have "b' < length h1" by simp
    moreover have "b' \<noteq> c" using lb c by simp
    ultimately have "h'' ! b' = h1 ! b'"
      using fr2 [of b'] set_member_other [of b' c h1 i v'] by simp
    with obj_rel_mono [OF orl le2] lb show ?thesis by simp
  qed
  show ?thesis
    unfolding postm_def using g1 g2 g3 g4 g5 g6 g7 g8 by blast
qed

lemma mem_steps:
  assumes po: "ptr_ok P h n" and so: "shared_ok P h n"
  shows "write_members P h n vs war = Inr war' \<Longrightarrow> wf_refs P h (refs_of vs) \<Longrightarrow>
     sim f h war rar h' \<Longrightarrow> stream war' = stream war @ ts \<Longrightarrow> stream rar = ts @ rest \<Longrightarrow>
     c < length h' \<Longrightarrow> list_all2 same_kind vs ks \<Longrightarrow>
     length (contents (h' ! c)) = i + length vs \<Longrightarrow>
     mem_step P h n f war' vs c i ks rar h' rest"
proof (induction vs arbitrary: war f rar h' ts rest i ks)
  case Nil
  then have "war' = war" "ts = []" "ks = []"
    by simp_all
  with Nil have r: "read_members P n c i ks rar h' = Inr (rar, h')" and st: "stream rar = rest"
    and s: "sim f h war' rar h'"
    by simp_all
  show ?case
    by (rule mem_stepI [OF r st s postm_Nil])
next
  case (Cons v vs)
  from Cons.prems(7) obtain k ks' where ks: "ks = k # ks'" and sk: "same_kind v k"
    and sks: "list_all2 same_kind vs ks'"
    by (cases ks) auto
  from Cons.prems(2) have wfvs: "wf_refs P h (refs_of vs)"
    unfolding wf_refs_def using refs_of_Cons(4) [of vs v] by blast
  note s = Cons.prems(3) and c = Cons.prems(6) and len = Cons.prems(8)
  have il: "i < length (contents (h' ! c))"
    using len by simp
  show ?case
  proof (cases v)
    case (VInt i0)
    with sk obtain j0 where k: "k = VInt j0"
      by (cases k) auto
    from Cons.prems(1) VInt have w: "write_members P h n vs (emit (TInt i0) war) = Inr war'"
      by simp
    from write_extends(3) [OF w] obtain ts2 where
      ts2: "stream war' = stream (emit (TInt i0) war) @ ts2"
      unfolding extends_def by blast
    with Cons.prems(4,5) have sr: "stream rar = TInt i0 # ts2 @ rest"
      by simp
    let ?rar1 = "rar\<lparr>stream := ts2 @ rest\<rparr>"
    let ?H = "set_member h' c i (VInt i0)"
    have ri: "read_int rar = Inr (i0, ?rar1)"
      using sr by (simp add: read_int_def)
    have s1: "sim f h (emit (TInt i0) war) ?rar1 ?H"
      using s by simp
    have len1: "length (contents (?H ! c)) = Suc i + length vs"
      using len c by (simp add: set_member_same)
    from Cons.IH [OF w wfvs s1 ts2 _ _ sks len1, of rest] c
    have "mem_step P h n f war' vs c (Suc i) ks' ?rar1 ?H rest"
      by simp
    then obtain rar' h'' f' where
      rm: "read_members P n c (Suc i) ks' ?rar1 ?H = Inr (rar', h'')"
      and st: "stream rar' = rest" and s': "sim f' h war' rar' h''"
      and pm: "postm f h ?H f' h'' c (Suc i) vs"
      unfolding mem_step_def by blast
    have r: "read_members P n c i ks rar h' = Inr (rar', h'')"
      using ri rm by (simp add: ks k)
    have "postm f h h' f' h'' c i (VInt i0 # vs)"
      by (rule postm_step [OF post_refl s pm _ c]) (simp_all add: len [unfolded VInt])
    with VInt show ?thesis
      by (intro mem_stepI [OF r st s']) simp
  next
    case (VRaw T p)
    with sk obtain q0 where k: "k = VRaw T q0"
      by (cases k) auto
    from Cons.prems(1) VRaw obtain war1 where w1: "write_ptr P h n T p war = Inr war1"
      and w: "write_members P h n vs war1 = Inr war'"
      by (auto split: sum.splits)
    from write_extends(1) [OF w1] obtain ts1 where ts1: "stream war1 = stream war @ ts1"
      unfolding extends_def by blast
    from write_extends(3) [OF w] obtain ts2 where ts2: "stream war' = stream war1 @ ts2"
      unfolding extends_def by blast
    from ts1 ts2 Cons.prems(4,5) have sr: "stream rar = ts1 @ (ts2 @ rest)"
      by simp
    from Cons.prems(2) VRaw have wfp: "wf_refs P h (refs_of [VRaw T p])"
      unfolding wf_refs_def using refs_of_Cons(2) [of T p vs] by blast
    from po [unfolded ptr_ok_def, rule_format, OF w1 wfp s ts1 sr]
    obtain p' rar1 h1 f1 where
      r1: "read_ptr P n T rar h' = Inr (p', rar1, h1)"
      and st1: "stream rar1 = ts2 @ rest" and s1: "sim f1 h war1 rar1 h1"
      and po1: "post f h h' f1 h1" and pr: "ptr_rel f1 p p'"
      unfolding ptr_step_def by blast
    let ?H = "set_member h1 c i (VRaw T p')"
    from po1 have l1: "length h' \<le> length h1" and fr1: "h1 ! c = h' ! c"
      unfolding post_def using c by simp_all
    have c1: "c < length h1"
      using c l1 by simp
    have sH: "sim f1 h war1 rar1 ?H"
      using s1 by simp
    have len1: "length (contents (?H ! c)) = Suc i + length vs"
      using len c1 fr1 by (simp add: set_member_same)
    from Cons.IH [OF w wfvs sH ts2 st1 _ sks len1] c1
    have "mem_step P h n f1 war' vs c (Suc i) ks' rar1 ?H rest"
      by simp
    then obtain rar' h'' f' where
      rm: "read_members P n c (Suc i) ks' rar1 ?H = Inr (rar', h'')"
      and st: "stream rar' = rest" and s': "sim f' h war' rar' h''"
      and pm: "postm f1 h ?H f' h'' c (Suc i) vs"
      unfolding mem_step_def by blast
    have r: "read_members P n c i ks rar h' = Inr (rar', h'')"
      using r1 rm by (simp add: ks k)
    have "postm f h h' f' h'' c i (VRaw T p # vs)"
      by (rule postm_step [OF po1 s1 pm _ c]) (simp_all add: pr len [unfolded VRaw])
    with VRaw show ?thesis
      by (intro mem_stepI [OF r st s']) simp
  next
    case (VShared T p)
    with sk obtain q0 where k: "k = VShared T q0"
      by (cases k) auto
    from Cons.prems(1) VShared obtain war1 where w1: "write_shared_ptr P h n T p war = Inr war1"
      and w: "write_members P h n vs war1 = Inr war'"
      by (auto split: sum.splits)
    from write_extends(2) [OF w1] obtain ts1 where ts1: "stream war1 = stream war @ ts1"
      unfolding extends_def by blast
    from write_extends(3) [OF w] obtain ts2 where ts2: "stream war' = stream war1 @ ts2"
      unfolding extends_def by blast
    from ts1 ts2 Cons.prems(4,5) have sr: "stream rar = ts1 @ (ts2 @ rest)"
      by simp
    from Cons.prems(2) VShared have wfp: "wf_refs P h (refs_of [VShared T p])"
      unfolding wf_refs_def using refs_of_Cons(3) [of T p vs] by blast
    from so [unfolded shared_ok_def, rule_format, OF w1 wfp s ts1 sr]
    obtain p' rar1 h1 f1 where
      r1: "read_shared_ptr P n T rar h' = Inr (p', rar1, h1)"
      and st1: "stream rar1 = ts2 @ rest" and s1: "sim f1 h war1 rar1 h1"
      and po1: "post f h h' f1 h1" and pr: "ptr_rel f1 p p'"
      unfolding shared_step_def by blast
    let ?H = "set_member h1 c i (VShared T p')"
    from po1 have l1: "length h' \<le> length h1" and fr1: "h1 ! c = h' ! c"
      unfolding post_def using c by simp_all
    have c1: "c < length h1"
      using c l1 by simp
    have sH: "sim f1 h war1 rar1 ?H"
      using s1 by simp
    have len1: "length (contents (?H ! c)) = Suc i + length vs"
      using len c1 fr1 by (simp add: set_member_same)
    from Cons.IH [OF w wfvs sH ts2 st1 _ sks len1] c1
    have "mem_step P h n f1 war' vs c (Suc i) ks' rar1 ?H rest"
      by simp
    then obtain rar' h'' f' where
      rm: "read_members P n c (Suc i) ks' rar1 ?H = Inr (rar', h'')"
      and st: "stream rar' = rest" and s': "sim f' h war' rar' h''"
      and pm: "postm f1 h ?H f' h'' c (Suc i) vs"
      unfolding mem_step_def by blast
    have r: "read_members P n c i ks rar h' = Inr (rar', h'')"
      using r1 rm by (simp add: ks k)
    have "postm f h h' f' h'' c i (VShared T p # vs)"
      by (rule postm_step [OF po1 s1 pm _ c]) (simp_all add: pr len [unfolded VShared])
    with VShared show ?thesis
      by (intro mem_stepI [OF r st s']) simp
  qed
qed

lemma mem_ok_from:
  assumes "ptr_ok P h n" and "shared_ok P h n"
  shows "mem_ok P h n"
  unfolding mem_ok_def using mem_steps [OF assms] by blast

lemma all_ok:
  assumes wfh: "wf_refs P h (references h)"
  shows "ptr_ok P h n \<and> shared_ok P h n \<and> mem_ok P h n"
proof (induction n)
  case 0
  from ok_0 [of P h] mem_ok_from [OF ok_0, of P h] show ?case
    by simp
next
  case (Suc n)
  then have p: "ptr_ok P h n" and m: "mem_ok P h n"
    by simp_all
  have p': "ptr_ok P h (Suc n)"
    using m wfh by (rule ptr_ok_Suc)
  have s': "shared_ok P h (Suc n)"
    using p by (rule shared_ok_Suc)
  from p' s' mem_ok_from [OF p' s'] show ?case
    by simp
qed

subsection \<open>Enough fuel\<close>

text \<open>A bound on the depth of the calls that can be computed from the heap.\<close>

definition fuel_bound :: "heap \<Rightarrow> nat" where
  "fuel_bound h = 2 * length (concat (map contents h)) + 4"

lemma card_refs_of: "card (refs_of vs) \<le> length vs"
proof -
  let ?k = "\<lambda>v. case v of VRaw T (Some p) \<Rightarrow> (T, p) | VShared T (Some p) \<Rightarrow> (T, p)"
  have "refs_of vs \<subseteq> ?k ` set vs"
    by (force simp: refs_of_def image_iff)
  then have "card (refs_of vs) \<le> card (?k ` set vs)"
    by (intro card_mono) simp_all
  also have "\<dots> \<le> card (set vs)"
    by (intro card_image_le) simp
  also have "\<dots> \<le> length vs"
    by (rule card_length)
  finally show ?thesis .
qed

lemma references_concat: "references h = refs_of (concat (map contents h))"
  by (auto simp: references_def refs_of_def)

lemma card_reg_keys:
  assumes "finite R"
  shows "card (reg_keys P h R) \<le> card R"
proof -
  let ?g = "\<lambda>(T, p). case typeid_of h p of
                   Inr D \<Rightarrow> (case reg_ptr_of (registry_of P) T D p of Inr a \<Rightarrow> a)"
  have "reg_keys P h R \<subseteq> ?g ` R"
    by (force simp: reg_keys_def image_iff)
  then have "card (reg_keys P h R) \<le> card (?g ` R)"
    using assms by (intro card_mono) simp_all
  also have "\<dots> \<le> card R"
    using assms by (rule card_image_le)
  finally show ?thesis .
qed

lemma unvisited_bound:
  assumes "card (refs_of vs) \<le> 1"
  shows "2 * unvisited P h (references h \<union> refs_of vs) ar + 2 \<le> fuel_bound h"
proof -
  let ?R = "references h \<union> refs_of vs"
  have fin: "finite ?R"
    by (simp add: finite_references finite_refs_of)
  have "unvisited P h ?R ar \<le> card (reg_keys P h ?R)"
    unfolding unvisited_def by (intro card_mono finite_reg_keys fin) auto
  also have "\<dots> \<le> card ?R"
    by (rule card_reg_keys [OF fin])
  also have "\<dots> \<le> card (references h) + card (refs_of vs)"
    by (rule card_Un_le)
  also have "\<dots> \<le> length (concat (map contents h)) + 1"
    using card_refs_of [of "concat (map contents h)"] assms
    by (simp add: references_concat)
  finally show ?thesis
    by (simp add: fuel_bound_def)
qed

lemma card_refs_single:
  "card (refs_of [VRaw T p]) \<le> 1" "card (refs_of [VShared T p]) \<le> 1"
  using card_refs_of [of "[VRaw T p]"] card_refs_of [of "[VShared T p]"] by simp_all

subsection \<open>A well-formed graph is written without an error\<close>

lemma write_ptr_head_wf:
  assumes "wf_ref P h T a"
  shows "\<exists>ar1 b. write_ptr_head (registry_of P) (classes_of P) h T (Some a) ar = Inr (ar1, b) \<and>
           (b = None \<or> b = Some (contents (h ! fst a)))"
proof (cases "ptr2nr ar (fst a, 0)")
  case None
  from new_heads [OF assms None] show ?thesis
    by blast
next
  case (Some k)
  with wf_ref_typeid [OF assms] wf_ref_reg_ptr [OF assms] show ?thesis
    by (simp add: write_ptr_head_def)
qed

lemma write_shared_head_wf:
  assumes "wf_ref P h T a"
  shows "\<exists>r. write_shared_head (registry_of P) h T (Some a) ar = Inr r"
  using wf_ref_typeid [OF assms] wf_ref_reg_ptr [OF assms]
  by (simp add: write_shared_head_def Let_def split: option.splits)

lemma wf_refs_single:
  "wf_refs P h (refs_of [VRaw T (Some a)]) = wf_ref P h T a"
  "wf_refs P h (refs_of [VShared T (Some a)]) = wf_ref P h T a"
  by (auto simp: wf_refs_def refs_of_def)

lemma wf_refs_mono: "wf_refs P h R \<Longrightarrow> R' \<subseteq> R \<Longrightarrow> wf_refs P h R'"
  by (auto simp: wf_refs_def)

lemma write_wf:
  assumes wfh: "wf_refs P h (references h)"
  shows "wf_refs P h (refs_of [VRaw T p]) \<Longrightarrow> write_ptr P h n T p ar = Inl e \<Longrightarrow> e = OutOfFuel"
    and "wf_refs P h (refs_of [VShared T p]) \<Longrightarrow> write_shared_ptr P h n T p ar = Inl e \<Longrightarrow>
           e = OutOfFuel"
    and "wf_refs P h (refs_of vs) \<Longrightarrow> write_members P h n vs ar = Inl e \<Longrightarrow> e = OutOfFuel"
  using wfh
proof (induction P h n T p ar and P h n T p ar and P h n vs ar
    rule: write_ptr_write_shared_ptr_write_members.induct)
  case (1 P h T p ar)
  then show ?case by simp
next
  case (2 P h n T p ar)
  show ?case
  proof (cases p)
    case None
    with "2.prems" show ?thesis
      by (simp add: write_ptr_head_def)
  next
    case (Some a)
    with "2.prems" have wfa: "wf_ref P h T a"
      by (simp add: wf_refs_single)
    from write_ptr_head_wf [OF wfa, of ar] obtain ar1 b where
      hd: "write_ptr_head (registry_of P) (classes_of P) h T (Some a) ar = Inr (ar1, b)"
      and b: "b = None \<or> b = Some (contents (h ! fst a))"
      by blast
    show ?thesis
    proof (cases b)
      case None
      with hd Some "2.prems" show ?thesis by simp
    next
      case (Some body)
      with b have body: "body = contents (h ! fst a)" by simp
      from hd Some \<open>p = Some a\<close> "2.prems"
      have w: "write_members P h n body ar1 = Inl e"
        by simp
      from wfa have "fst a < length h"
        by (simp add: wf_ref_def)
      from refs_of_contents [OF this] "2.prems"(3) body
      have wfb: "wf_refs P h (refs_of body)"
        by (auto intro: wf_refs_mono)
      from hd \<open>p = Some a\<close>
      have hd': "write_ptr_head (registry_of P) (classes_of P) h T p ar = Inr (ar1, b)"
        by simp
      from "2.IH" [OF hd' refl Some wfb w "2.prems"(3)] show ?thesis .
    qed
  qed
next
  case (3 P h T p ar)
  then show ?case by simp
next
  case (4 P h n T p ar)
  show ?case
  proof (cases p)
    case None
    with "4.prems" show ?thesis
      by (simp add: write_shared_head_def)
  next
    case (Some a)
    with "4.prems" have wfa: "wf_ref P h T a"
      by (simp add: wf_refs_single)
    from write_shared_head_wf [OF wfa, of ar] obtain ar1 b where
      hd: "write_shared_head (registry_of P) h T (Some a) ar = Inr (ar1, b)"
      by (metis surj_pair)
    show ?thesis
    proof (cases b)
      case None
      with hd Some "4.prems" show ?thesis by simp
    next
      case k: (Some k)
      from hd k Some "4.prems"
      have w: "write_ptr P h n T p ar1 = Inl e"
        by (simp split: sum.splits)
      from hd \<open>p = Some a\<close>
      have hd': "write_shared_head (registry_of P) h T p ar = Inr (ar1, b)"
        by simp
      have wfr: "wf_refs P h (refs_of [VRaw T p])"
        using wfa Some by (simp add: wf_refs_single)
      from "4.IH" [OF hd' refl k wfr w "4.prems"(3)] show ?thesis .
    qed
  qed
next
  case (5 P h n ar)
  then show ?case by simp
next
  case (6 P h n i vs ar)
  then show ?case by (simp add: refs_of_Cons)
next
  case (7 P h n T p vs ar)
  have 1: "wf_refs P h (refs_of [VRaw T p])"
    using "7.prems"(1) by (rule wf_refs_mono) (rule refs_of_Cons(2))
  have 2: "wf_refs P h (refs_of vs)"
    using "7.prems"(1) by (rule wf_refs_mono) (rule refs_of_Cons(4))
  show ?case
  proof (cases "write_ptr P h n T p ar")
    case (Inl e')
    with "7.prems" have "e' = e" by simp
    with "7.IH"(1) [OF 1 _ "7.prems"(3)] Inl show ?thesis by simp
  next
    case (Inr ar1)
    with "7.prems" have "write_members P h n vs ar1 = Inl e" by simp
    from "7.IH"(2) [OF Inr 2 this "7.prems"(3)] show ?thesis .
  qed
next
  case (8 P h n T p vs ar)
  have 1: "wf_refs P h (refs_of [VShared T p])"
    using "8.prems"(1) by (rule wf_refs_mono) (rule refs_of_Cons(3))
  have 2: "wf_refs P h (refs_of vs)"
    using "8.prems"(1) by (rule wf_refs_mono) (rule refs_of_Cons(4))
  show ?case
  proof (cases "write_shared_ptr P h n T p ar")
    case (Inl e')
    with "8.prems" have "e' = e" by simp
    with "8.IH"(1) [OF 1 _ "8.prems"(3)] Inl show ?thesis by simp
  next
    case (Inr ar1)
    with "8.prems" have "write_members P h n vs ar1 = Inl e" by simp
    from "8.IH"(2) [OF Inr 2 this "8.prems"(3)] show ?thesis .
  qed
qed

lemma write_succeeds:
  assumes wfh: "wf_refs P h (references h)" and cf: "casters_fail (registry_of P)"
    and m: "fuel_bound h \<le> m"
  shows "wf_refs P h (refs_of [VRaw T p]) \<Longrightarrow> \<exists>war. write_ptr P h m T p ar = Inr war"
    and "wf_refs P h (refs_of [VShared T p]) \<Longrightarrow> \<exists>war. write_shared_ptr P h m T p ar = Inr war"
proof -
  have fin: "finite (references h \<union> refs_of vs)" for vs
    by (simp add: finite_references finite_refs_of)
  show "\<exists>war. write_ptr P h m T p ar = Inr war" if wf: "wf_refs P h (refs_of [VRaw T p])"
  proof (cases "write_ptr P h m T p ar")
    case (Inl e)
    from write_wf(1) [OF wfh wf Inl] have "e = OutOfFuel" .
    moreover have "2 * unvisited P h (references h \<union> refs_of [VRaw T p]) ar + 1 \<le> m"
      using unvisited_bound [OF card_refs_single(1), of P h T p ar] m by simp
    from write_terminates(1) [OF fin _ cf _ this, of T p]
    have "write_ptr P h m T p ar \<noteq> Inl OutOfFuel"
      by simp
    ultimately show ?thesis
      using Inl by simp
  next
    case (Inr war)
    then show ?thesis by simp
  qed
  show "\<exists>war. write_shared_ptr P h m T p ar = Inr war"
    if wf: "wf_refs P h (refs_of [VShared T p])"
  proof (cases "write_shared_ptr P h m T p ar")
    case (Inl e)
    from write_wf(2) [OF wfh wf Inl] have "e = OutOfFuel" .
    moreover have "2 * unvisited P h (references h \<union> refs_of [VShared T p]) ar + 2 \<le> m"
      using unvisited_bound [OF card_refs_single(2), of P h T p ar] m by simp
    from write_terminates(2) [OF fin _ cf _ this, of T p]
    have "write_shared_ptr P h m T p ar \<noteq> Inl OutOfFuel"
      by simp
    ultimately show ?thesis
      using Inl by simp
  next
    case (Inr war)
    then show ?thesis by simp
  qed
qed

subsection \<open>The loaded graph\<close>

text \<open>
  The heap \<open>h'\<close> holds a copy of the objects of \<open>h\<close> that \<open>f\<close> maps, block by block: the
  copy of an object has its dynamic type, the same integers, and pointers with the same
  static types to the copies of its referents, at the same offsets. Different objects have
  different copies.
\<close>

definition isomorphic :: "(nat \<rightharpoonup> nat) \<Rightarrow> heap \<Rightarrow> heap \<Rightarrow> bool" where
  "isomorphic f h h' \<longleftrightarrow>
     inj_on f (dom f) \<and>
     (\<forall>b b'. f b = Some b' \<longrightarrow> b < length h \<and> b' < length h' \<and> obj_rel f (h ! b) (h' ! b'))"

lemma sim_init: "sim Map.empty h (Archive_init True []) (Archive_init False ts) []"
  by (simp add: sim_def Archive_init_def)

lemma post_isomorphic:
  assumes s: "sim f h war rar h'" and po: "post Map.empty h [] f h'"
  shows "isomorphic f h h'"
  unfolding isomorphic_def
proof (intro conjI allI impI)
  show "inj_on f (dom f)"
    using s by (rule sim_inj)
  fix b b'
  assume fb: "f b = Some b'"
  from sim_map [OF s fb] show "b < length h" "b' < length h'"
    by simp_all
  from po fb show "obj_rel f (h ! b) (h' ! b')"
    unfolding post_def by simp
qed

lemma roundtrip:
  assumes wfh: "wf_refs P h (references h)"
  shows "wf_refs P h (refs_of [VRaw T p]) \<Longrightarrow>
         write_ptr P h n T p (Archive_init True []) = Inr war \<Longrightarrow>
         \<exists>p' rar h' f. read_ptr P n T (Archive_init False (stream war)) [] = Inr (p', rar, h') \<and>
           stream rar = [] \<and> ptr_rel f p p' \<and> isomorphic f h h'"
    and "wf_refs P h (refs_of [VShared T p]) \<Longrightarrow>
         write_shared_ptr P h n T p (Archive_init True []) = Inr war \<Longrightarrow>
         \<exists>p' rar h' f. read_shared_ptr P n T (Archive_init False (stream war)) [] = Inr (p', rar, h') \<and>
           stream rar = [] \<and> ptr_rel f p p' \<and> isomorphic f h h'"
proof -
  note ok = all_ok [OF wfh, of n]
  have st: "stream war = stream (Archive_init True []) @ stream war"
    "stream (Archive_init False (stream war)) = stream war @ []"
    by (simp_all add: Archive_init_def)
  show "\<exists>p' rar h' f. read_ptr P n T (Archive_init False (stream war)) [] = Inr (p', rar, h') \<and>
           stream rar = [] \<and> ptr_rel f p p' \<and> isomorphic f h h'"
    if wf: "wf_refs P h (refs_of [VRaw T p])"
      and w: "write_ptr P h n T p (Archive_init True []) = Inr war"
  proof -
    from ok have "ptr_ok P h n" by simp
    from this [unfolded ptr_ok_def, rule_format, OF w wf sim_init st]
    obtain p' rar h' f where
      r: "read_ptr P n T (Archive_init False (stream war)) [] = Inr (p', rar, h')"
      and e: "stream rar = []" and s: "sim f h war rar h'"
      and po: "post Map.empty h [] f h'" and pr: "ptr_rel f p p'"
      unfolding ptr_step_def by blast
    from r e pr post_isomorphic [OF s po] show ?thesis
      by blast
  qed
  show "\<exists>p' rar h' f. read_shared_ptr P n T (Archive_init False (stream war)) [] = Inr (p', rar, h') \<and>
           stream rar = [] \<and> ptr_rel f p p' \<and> isomorphic f h h'"
    if wf: "wf_refs P h (refs_of [VShared T p])"
      and w: "write_shared_ptr P h n T p (Archive_init True []) = Inr war"
  proof -
    from ok have "shared_ok P h n" by simp
    from this [unfolded shared_ok_def, rule_format, OF w wf sim_init st]
    obtain p' rar h' f where
      r: "read_shared_ptr P n T (Archive_init False (stream war)) [] = Inr (p', rar, h')"
      and e: "stream rar = []" and s: "sim f h war rar h'"
      and po: "post Map.empty h [] f h'" and pr: "ptr_rel f p p'"
      unfolding shared_step_def by blast
    from r e pr post_isomorphic [OF s po] show ?thesis
      by blast
  qed
qed


section \<open>Unregistered classes: who raises the error\<close>

subsection \<open>What a write encounters\<close>

text \<open>
  The calls of a write: a call of one of the two reference operators, with its static
  type, its pointer and the archive it is applied to, or a call of \<^verbatim>\<open>DoArchive\<close> with the
  members that it has still to transfer.
\<close>

datatype wjob =
    WPtr nat cname "addr option" Archive
  | WShared nat cname "addr option" Archive
  | WMembers nat "val list" Archive

fun wrun :: "program \<Rightarrow> heap \<Rightarrow> wjob \<Rightarrow> error + Archive" where
  "wrun P h (WPtr n T p ar) = write_ptr P h n T p ar"
| "wrun P h (WShared n T p ar) = write_shared_ptr P h n T p ar"
| "wrun P h (WMembers n vs ar) = write_members P h n vs ar"

text \<open>
  \<open>wcall P h j j'\<close>: the call \<open>j\<close> makes the call \<open>j'\<close>. The raw operator calls \<^verbatim>\<open>DoArchive\<close>
  for a new referent; the shared operator calls the raw one for a new referent;
  \<^verbatim>\<open>DoArchive\<close> calls the operator of its first pointer member and, when that has
  returned, goes on with the members that follow.
\<close>

inductive wcall :: "program \<Rightarrow> heap \<Rightarrow> wjob \<Rightarrow> wjob \<Rightarrow> bool" for P h where
  wcall_body:
    "write_ptr_head (registry_of P) (classes_of P) h T p ar = Inr (ar1, Some body) \<Longrightarrow>
     wcall P h (WPtr (Suc n) T p ar) (WMembers n body ar1)"
| wcall_inner:
    "write_shared_head (registry_of P) h T p ar = Inr (ar1, Some k) \<Longrightarrow>
     wcall P h (WShared (Suc n) T p ar) (WPtr n T p ar1)"
| wcall_int:
    "wcall P h (WMembers n (VInt i # vs) ar) (WMembers n vs (emit (TInt i) ar))"
| wcall_raw:
    "wcall P h (WMembers n (VRaw T p # vs) ar) (WPtr n T p ar)"
| wcall_raw_next:
    "write_ptr P h n T p ar = Inr ar1 \<Longrightarrow>
     wcall P h (WMembers n (VRaw T p # vs) ar) (WMembers n vs ar1)"
| wcall_shared:
    "wcall P h (WMembers n (VShared T p # vs) ar) (WShared n T p ar)"
| wcall_shared_next:
    "write_shared_ptr P h n T p ar = Inr ar1 \<Longrightarrow>
     wcall P h (WMembers n (VShared T p # vs) ar) (WMembers n vs ar1)"

text \<open>
  The call applies a reference operator to a referent whose dynamic type \<open>x\<close> differs from
  the static type of the reference and is not registered.
\<close>

definition offending :: "program \<Rightarrow> heap \<Rightarrow> wjob \<Rightarrow> cname \<Rightarrow> bool" where
  "offending P h j x \<longleftrightarrow>
     (\<exists>n T a ar. (j = WPtr (Suc n) T (Some a) ar \<or> j = WShared (Suc n) T (Some a) ar) \<and>
        typeid_of h a = Inr x \<and> T \<noteq> x \<and> \<not> IsRegistered (registry_of P) x)"

text \<open>The write \<open>j\<close> encounters such a referent: it makes, directly or not, such a call.\<close>

definition encounters_unregistered :: "program \<Rightarrow> heap \<Rightarrow> wjob \<Rightarrow> cname \<Rightarrow> bool" where
  "encounters_unregistered P h j x \<longleftrightarrow> (\<exists>j'. rtranclp (wcall P h) j j' \<and> offending P h j' x)"

lemma wcall_propagates:
  assumes "wcall P h j j1" and "wrun P h j1 = Inl e"
  shows "wrun P h j = Inl e"
  using assms by (induction rule: wcall.induct) simp_all

lemma wcalls_propagate:
  assumes "rtranclp (wcall P h) j j'" and "wrun P h j' = Inl e"
  shows "wrun P h j = Inl e"
  using assms by (induction rule: converse_rtranclp_induct) (auto intro: wcall_propagates)

lemma offending_raised:
  assumes "offending P h j x"
  shows "wrun P h j = Inl (UnregisteredPolymorphic x)"
  using assms write_unregistered_referent unfolding offending_def by fastforce

lemma encounters_self:
  "offending P h j x \<Longrightarrow> encounters_unregistered P h j x"
  unfolding encounters_unregistered_def by blast

lemma encounters_step:
  "wcall P h j j1 \<Longrightarrow> encounters_unregistered P h j1 x \<Longrightarrow> encounters_unregistered P h j x"
  unfolding encounters_unregistered_def by (blast intro: converse_rtranclp_into_rtranclp)

lemma raised_encounters:
  shows "casters_quiet (registry_of P) \<Longrightarrow>
         write_ptr P h n T p ar = Inl (UnregisteredPolymorphic x) \<Longrightarrow>
           encounters_unregistered P h (WPtr n T p ar) x"
    and "casters_quiet (registry_of P) \<Longrightarrow>
         write_shared_ptr P h n T p ar = Inl (UnregisteredPolymorphic x) \<Longrightarrow>
           encounters_unregistered P h (WShared n T p ar) x"
    and "casters_quiet (registry_of P) \<Longrightarrow>
         write_members P h n vs ar = Inl (UnregisteredPolymorphic x) \<Longrightarrow>
           encounters_unregistered P h (WMembers n vs ar) x"
proof (induction P h n T p ar and P h n T p ar and P h n vs ar
    rule: write_ptr_write_shared_ptr_write_members.induct)
  case (1 P h T p ar)
  then show ?case by simp
next
  case (2 P h n T p ar)
  show ?case
  proof (cases "write_ptr_head (registry_of P) (classes_of P) h T p ar")
    case (Inl e)
    with "2.prems" have "e = UnregisteredPolymorphic x" by simp
    with Inl write_ptr_head_unregistered [OF _ "2.prems"(1)]
    obtain a where "p = Some a" "typeid_of h a = Inr x" "T \<noteq> x"
      "\<not> IsRegistered (registry_of P) x"
      by blast
    then have "offending P h (WPtr (Suc n) T p ar) x"
      unfolding offending_def by blast
    then show ?thesis by (rule encounters_self)
  next
    case (Inr r)
    obtain ar1 b where r: "r = (ar1, b)" by (cases r)
    show ?thesis
    proof (cases b)
      case None
      with Inr r "2.prems" show ?thesis by simp
    next
      case (Some body)
      with Inr r "2.prems" have w: "write_members P h n body ar1 = Inl (UnregisteredPolymorphic x)"
        by simp
      from Inr r Some
      have hd: "write_ptr_head (registry_of P) (classes_of P) h T p ar = Inr (ar1, Some body)"
        by simp
      from "2.IH" [OF Inr r [symmetric] Some "2.prems"(1) w]
      have "encounters_unregistered P h (WMembers n body ar1) x" .
      with wcall_body [OF hd] show ?thesis
        by (rule encounters_step)
    qed
  qed
next
  case (3 P h T p ar)
  then show ?case by simp
next
  case (4 P h n T p ar)
  show ?case
  proof (cases "write_shared_head (registry_of P) h T p ar")
    case (Inl e)
    with "4.prems" have "e = UnregisteredPolymorphic x" by simp
    with Inl write_shared_head_unregistered [OF _ "4.prems"(1)]
    obtain a where "p = Some a" "typeid_of h a = Inr x" "T \<noteq> x"
      "\<not> IsRegistered (registry_of P) x"
      by blast
    then have "offending P h (WShared (Suc n) T p ar) x"
      unfolding offending_def by blast
    then show ?thesis by (rule encounters_self)
  next
    case (Inr r)
    obtain ar1 b where r: "r = (ar1, b)" by (cases r)
    show ?thesis
    proof (cases b)
      case None
      with Inr r "4.prems" show ?thesis by simp
    next
      case (Some k)
      with Inr r "4.prems" have w: "write_ptr P h n T p ar1 = Inl (UnregisteredPolymorphic x)"
        by (simp split: sum.splits)
      from Inr r Some
      have hd: "write_shared_head (registry_of P) h T p ar = Inr (ar1, Some k)"
        by simp
      from "4.IH" [OF Inr r [symmetric] Some "4.prems"(1) w]
      have "encounters_unregistered P h (WPtr n T p ar1) x" .
      with wcall_inner [OF hd] show ?thesis
        by (rule encounters_step)
    qed
  qed
next
  case (5 P h n ar)
  then show ?case by simp
next
  case (6 P h n i vs ar)
  then have "encounters_unregistered P h (WMembers n vs (emit (TInt i) ar)) x"
    by simp
  with wcall_int show ?case
    by (rule encounters_step)
next
  case (7 P h n T p vs ar)
  show ?case
  proof (cases "write_ptr P h n T p ar")
    case (Inl e)
    with "7.prems" have "write_ptr P h n T p ar = Inl (UnregisteredPolymorphic x)" by simp
    from "7.IH"(1) [OF "7.prems"(1) this] wcall_raw show ?thesis
      by (blast intro: encounters_step)
  next
    case (Inr ar1)
    with "7.prems" have "write_members P h n vs ar1 = Inl (UnregisteredPolymorphic x)" by simp
    from "7.IH"(2) [OF Inr "7.prems"(1) this] wcall_raw_next [OF Inr] show ?thesis
      by (blast intro: encounters_step)
  qed
next
  case (8 P h n T p vs ar)
  show ?case
  proof (cases "write_shared_ptr P h n T p ar")
    case (Inl e)
    with "8.prems" have "write_shared_ptr P h n T p ar = Inl (UnregisteredPolymorphic x)" by simp
    from "8.IH"(1) [OF "8.prems"(1) this] wcall_shared show ?thesis
      by (blast intro: encounters_step)
  next
    case (Inr ar1)
    with "8.prems" have "write_members P h n vs ar1 = Inl (UnregisteredPolymorphic x)" by simp
    from "8.IH"(2) [OF Inr "8.prems"(1) this] wcall_shared_next [OF Inr] show ?thesis
      by (blast intro: encounters_step)
  qed
qed

lemma write_raises_iff:
  assumes "casters_quiet (registry_of P)"
  shows "(wrun P h j = Inl (UnregisteredPolymorphic x)) = encounters_unregistered P h j x"
proof
  assume "wrun P h j = Inl (UnregisteredPolymorphic x)"
  with raised_encounters [OF assms] show "encounters_unregistered P h j x"
    by (cases j) simp_all
next
  assume "encounters_unregistered P h j x"
  then obtain j' where "rtranclp (wcall P h) j j'" "offending P h j' x"
    unfolding encounters_unregistered_def by blast
  with offending_raised show "wrun P h j = Inl (UnregisteredPolymorphic x)"
    by (blast intro: wcalls_propagate)
qed

subsection \<open>What a read looks up\<close>

text \<open>
  The calls of a read: the two reference operators, \<^verbatim>\<open>DoArchive\<close> of the object in a block
  from a member on, and the rest of the shared operator after the inner pointer has been
  read.
\<close>

datatype rjob =
    RPtr nat cname Archive heap
  | RShared nat cname Archive heap
  | RMembers nat nat nat "val list" Archive heap
  | RTail cname bool "addr option" Archive

fun rfails :: "program \<Rightarrow> rjob \<Rightarrow> error \<Rightarrow> bool" where
  "rfails P (RPtr n T ar h) e = (read_ptr P n T ar h = Inl e)"
| "rfails P (RShared n T ar h) e = (read_shared_ptr P n T ar h = Inl e)"
| "rfails P (RMembers n b i ks ar h) e = (read_members P n b i ks ar h = Inl e)"
| "rfails P (RTail T nd p ar) e = (read_shared_tail (registry_of P) T nd p ar = Inl e)"

inductive rcall :: "program \<Rightarrow> rjob \<Rightarrow> rjob \<Rightarrow> bool" for P where
  rcall_body:
    "read_ptr_head (registry_of P) (classes_of P) T ar h = Inr (Some a, ar1, h1, True) \<Longrightarrow>
     fst a < length h1 \<Longrightarrow>
     rcall P (RPtr (Suc n) T ar h) (RMembers n (fst a) 0 (contents (h1 ! fst a)) ar1 h1)"
| rcall_inner:
    "read_shared_head (registry_of P) T ar = Inr (Inr (nd, ar1)) \<Longrightarrow>
     rcall P (RShared (Suc n) T ar h) (RPtr n T ar1 h)"
| rcall_tail:
    "read_shared_head (registry_of P) T ar = Inr (Inr (nd, ar1)) \<Longrightarrow>
     read_ptr P n T ar1 h = Inr (p, ar2, h2) \<Longrightarrow>
     rcall P (RShared (Suc n) T ar h) (RTail T nd p ar2)"
| rcall_int:
    "read_int ar = Inr (v, ar1) \<Longrightarrow>
     rcall P (RMembers n b i (VInt u # ks) ar h)
       (RMembers n b (Suc i) ks ar1 (set_member h b i (VInt v)))"
| rcall_raw:
    "rcall P (RMembers n b i (VRaw T u # ks) ar h) (RPtr n T ar h)"
| rcall_raw_next:
    "read_ptr P n T ar h = Inr (p, ar1, h1) \<Longrightarrow>
     rcall P (RMembers n b i (VRaw T u # ks) ar h)
       (RMembers n b (Suc i) ks ar1 (set_member h1 b i (VRaw T p)))"
| rcall_shared:
    "rcall P (RMembers n b i (VShared T u # ks) ar h) (RShared n T ar h)"
| rcall_shared_next:
    "read_shared_ptr P n T ar h = Inr (p, ar1, h1) \<Longrightarrow>
     rcall P (RMembers n b i (VShared T u # ks) ar h)
       (RMembers n b (Suc i) ks ar1 (set_member h1 b i (VShared T p)))"

text \<open>
  The call looks the name \<open>x\<close> up in the registry: the raw operator after the sentinel \<open>-3\<close>
  and after the flag of a back reference that is true; the shared operator after the flag
  of a back reference that is true, and after the inner pointer of a new referent whose
  flag was true.
\<close>

inductive looks_up :: "rjob \<Rightarrow> cname \<Rightarrow> bool" where
  looks_up_new:
    "stream ar = TInt (- 3) # TStr x # rest \<Longrightarrow> looks_up (RPtr (Suc n) T ar h) x"
| looks_up_back:
    "stream ar = TInt nr # TBool True # TStr x # rest \<Longrightarrow> nr \<notin> {- 1, - 2, - 3} \<Longrightarrow>
     looks_up (RPtr (Suc n) T ar h) x"
| looks_up_shared_back:
    "stream ar = TInt nr # TBool True # TStr x # rest \<Longrightarrow> 0 \<le> nr \<Longrightarrow>
     nat nr < length (nr2shared_ptr ar) \<Longrightarrow> looks_up (RShared (Suc n) T ar h) x"
| looks_up_tail:
    "stream ar = TStr x # rest \<Longrightarrow> looks_up (RTail T True p ar) x"

text \<open>The read \<open>j\<close> has to look up the name \<open>x\<close>: it makes, directly or not, such a call.\<close>

definition has_to_look_up :: "program \<Rightarrow> rjob \<Rightarrow> cname \<Rightarrow> bool" where
  "has_to_look_up P j x \<longleftrightarrow> (\<exists>j'. rtranclp (rcall P) j j' \<and> looks_up j' x)"

lemma rcall_propagates:
  assumes "rcall P j j1" and "rfails P j1 e"
  shows "rfails P j e"
  using assms by (induction rule: rcall.induct) simp_all

lemma rcalls_propagate:
  assumes "rtranclp (rcall P) j j'" and "rfails P j' e"
  shows "rfails P j e"
  using assms by (induction rule: converse_rtranclp_induct) (auto intro: rcall_propagates)

lemma looks_up_raised:
  assumes "looks_up j x" and "\<not> IsRegistered (registry_of P) x"
  shows "rfails P j (UnregisteredPolymorphic x)"
  using assms
proof (induction rule: looks_up.induct)
  case (looks_up_new ar x rest n T h)
  then show ?case
    using read_ptr_unregistered(1) by simp
next
  case (looks_up_back ar nr x rest n T h)
  then show ?case
    using read_ptr_unregistered(2) by simp
next
  case (looks_up_shared_back ar nr x rest n T h)
  then show ?case
    using read_shared_unregistered(1) by simp
next
  case (looks_up_tail ar x rest T p)
  then show ?case
    using read_shared_unregistered(2) by simp
qed

lemma look_self: "looks_up j x \<Longrightarrow> has_to_look_up P j x"
  unfolding has_to_look_up_def by blast

lemma look_step: "rcall P j j1 \<Longrightarrow> has_to_look_up P j1 x \<Longrightarrow> has_to_look_up P j x"
  unfolding has_to_look_up_def by (blast intro: converse_rtranclp_into_rtranclp)

lemma read_token_quiet:
  "read_int ar \<noteq> Inl (UnregisteredPolymorphic x)"
  "read_flag ar \<noteq> Inl (UnregisteredPolymorphic x)"
  "read_name ar \<noteq> Inl (UnregisteredPolymorphic x)"
  by (simp_all add: read_int_def read_flag_def read_name_def split: list.splits token.splits)

lemma read_ptr_head_looks_up:
  assumes "read_ptr_head reg ct T ar h = Inl (UnregisteredPolymorphic x)"
    and "casters_quiet reg"
  shows "\<not> IsRegistered reg x \<and> looks_up (RPtr (Suc n) T ar h) x"
proof -
  have q: "downcaster info T' p \<noteq> Inl (UnregisteredPolymorphic x)"
      "upcaster info T' p \<noteq> Inl (UnregisteredPolymorphic x)"
      "creator info T' h' \<noteq> Inl (UnregisteredPolymorphic x)"
    if "reg D = Some info" for info D T' p h'
    using assms(2) that unfolding casters_quiet_def by blast+
  from assms(1) obtain nr ar1 where ri: "read_int ar = Inr (nr, ar1)"
    using read_token_quiet(1) [of ar x] by (auto simp: read_ptr_head_def split: sum.splits)
  then obtain rest where st: "stream ar = TInt nr # rest" and ar1: "ar1 = ar\<lparr>stream := rest\<rparr>"
    by (auto simp: read_int_def split: list.splits token.splits)
  show ?thesis
  proof (cases "nr = - 3")
    case True
    with assms(1) ri ar1 q obtain rest' where "rest = TStr x # rest'" "\<not> IsRegistered reg x"
      by (auto simp: read_ptr_head_def read_name_def GetArchiveRegister_def IsRegistered_def
          split: list.splits token.splits sum.splits option.splits prod.splits)
    with st True show ?thesis
      by (auto intro: looks_up_new)
  next
    case False
    with assms(1) ri ar1 q have nr: "nr \<notin> {- 1, - 2, - 3}"
      by (auto simp: read_ptr_head_def constructIfPossible_def
          split: sum.splits option.splits if_splits)
    with assms(1) ri ar1 q obtain rest' where "rest = TBool True # TStr x # rest'"
      "\<not> IsRegistered reg x"
      by (auto simp: read_ptr_head_def read_name_def read_flag_def GetArchiveRegister_def
          IsRegistered_def nth_checked_def
          split: list.splits token.splits sum.splits option.splits prod.splits if_splits)
    with st nr show ?thesis
      by (auto intro: looks_up_back)
  qed
qed

lemma read_shared_head_looks_up:
  assumes "read_shared_head reg T ar = Inl (UnregisteredPolymorphic x)"
    and "casters_quiet reg"
  shows "\<not> IsRegistered reg x \<and> looks_up (RShared (Suc n) T ar h) x"
proof -
  have q: "upcaster info T' p \<noteq> Inl (UnregisteredPolymorphic x)"
    if "reg D = Some info" for info D T' p
    using assms(2) that unfolding casters_quiet_def by blast
  from assms(1) obtain nr ar1 where ri: "read_int ar = Inr (nr, ar1)"
    using read_token_quiet(1) [of ar x] by (auto simp: read_shared_head_def split: sum.splits)
  then obtain rest where st: "stream ar = TInt nr # rest" and ar1: "ar1 = ar\<lparr>stream := rest\<rparr>"
    by (auto simp: read_int_def split: list.splits token.splits)
  from assms(1) ri ar1 q have nr: "0 \<le> nr" "nat nr < length (nr2shared_ptr ar)"
    by (auto simp: read_shared_head_def read_flag_def nth_checked_def
        split: sum.splits if_splits list.splits token.splits)
  from assms(1) ri ar1 q obtain rest' where "rest = TBool True # TStr x # rest'"
    "\<not> IsRegistered reg x"
    by (auto simp: read_shared_head_def read_name_def read_flag_def GetArchiveRegister_def
        IsRegistered_def nth_checked_def cast_nonnull_def
        split: list.splits token.splits sum.splits option.splits prod.splits if_splits)
  with st nr show ?thesis
    by (auto intro: looks_up_shared_back)
qed

lemma read_shared_tail_looks_up:
  assumes "read_shared_tail reg T nd p ar = Inl (UnregisteredPolymorphic x)"
    and "casters_quiet reg"
  shows "\<not> IsRegistered reg x \<and> looks_up (RTail T nd p ar) x"
proof -
  have q: "downcaster info T' p \<noteq> Inl (UnregisteredPolymorphic x)"
    if "reg D = Some info" for info D T' p
    using assms(2) that unfolding casters_quiet_def by blast
  from assms(1) q obtain rest where "nd" "stream ar = TStr x # rest" "\<not> IsRegistered reg x"
    by (auto simp: read_shared_tail_def read_name_def GetArchiveRegister_def
        IsRegistered_def cast_nonnull_def
        split: list.splits token.splits sum.splits option.splits prod.splits if_splits)
  then show ?thesis
    by (auto intro: looks_up_tail)
qed

lemma raised_looked_up:
  shows "casters_quiet (registry_of P) \<Longrightarrow>
         read_ptr P n T ar h = Inl (UnregisteredPolymorphic x) \<Longrightarrow>
           \<not> IsRegistered (registry_of P) x \<and> has_to_look_up P (RPtr n T ar h) x"
    and "casters_quiet (registry_of P) \<Longrightarrow>
         read_shared_ptr P n T ar h = Inl (UnregisteredPolymorphic x) \<Longrightarrow>
           \<not> IsRegistered (registry_of P) x \<and> has_to_look_up P (RShared n T ar h) x"
    and "casters_quiet (registry_of P) \<Longrightarrow>
         read_members P n b i ks ar h = Inl (UnregisteredPolymorphic x) \<Longrightarrow>
           \<not> IsRegistered (registry_of P) x \<and> has_to_look_up P (RMembers n b i ks ar h) x"
proof (induction P n T ar h and P n T ar h and P n b i ks ar h
    rule: read_ptr_read_shared_ptr_read_members.induct)
  case (1 P T ar h)
  then show ?case by simp
next
  case (2 P n T ar h)
  show ?case
  proof (cases "read_ptr_head (registry_of P) (classes_of P) T ar h")
    case (Inl e)
    with "2.prems" have "e = UnregisteredPolymorphic x" by simp
    with Inl read_ptr_head_looks_up [OF _ "2.prems"(1), of "classes_of P" T ar h x n]
    show ?thesis
      by (auto intro: look_self)
  next
    case (Inr r)
    obtain q ar1 h1 body where r: "r = (q, ar1, h1, body)" by (cases r)
    with Inr have hd: "read_ptr_head (registry_of P) (classes_of P) T ar h = Inr (q, ar1, h1, body)"
      by simp
    show ?thesis
    proof (cases body)
      case False
      with hd "2.prems" show ?thesis by simp
    next
      case True
      with hd "2.prems" obtain a where a: "q = Some a" "fst a < length h1"
        and m: "read_members P n (fst a) 0 (contents (h1 ! fst a)) ar1 h1 =
                 Inl (UnregisteredPolymorphic x)"
        by (auto split: option.splits if_splits sum.splits)
      from "2.IH" [OF hd refl refl refl True a "2.prems"(1) m]
      have "\<not> IsRegistered (registry_of P) x"
        and l: "has_to_look_up P (RMembers n (fst a) 0 (contents (h1 ! fst a)) ar1 h1) x"
        by simp_all
      moreover from hd True a(1)
      have "read_ptr_head (registry_of P) (classes_of P) T ar h = Inr (Some a, ar1, h1, True)"
        by simp
      from rcall_body [OF this a(2), of n] l have "has_to_look_up P (RPtr (Suc n) T ar h) x"
        by (rule look_step)
      ultimately show ?thesis by simp
    qed
  qed
next
  case (3 P T ar h)
  then show ?case by simp
next
  case (4 P n T ar h)
  show ?case
  proof (cases "read_shared_head (registry_of P) T ar")
    case (Inl e)
    with "4.prems" have "e = UnregisteredPolymorphic x" by simp
    with Inl read_shared_head_looks_up [OF _ "4.prems"(1), of T ar x n h]
    show ?thesis
      by (auto intro: look_self)
  next
    case (Inr r)
    show ?thesis
    proof (cases r)
      case (Inl d)
      with Inr "4.prems" show ?thesis
        by (simp split: prod.splits)
    next
      case d: (Inr d)
      obtain nd ar1 where dd: "d = (nd, ar1)" by (cases d)
      from Inr d dd have hd: "read_shared_head (registry_of P) T ar = Inr (Inr (nd, ar1))"
        by simp
      show ?thesis
      proof (cases "read_ptr P n T ar1 h")
        case (Inl e)
        with hd "4.prems" have w: "read_ptr P n T ar1 h = Inl (UnregisteredPolymorphic x)"
          by simp
        from "4.IH" [OF Inr d dd [symmetric] "4.prems"(1) w]
        have "\<not> IsRegistered (registry_of P) x" and l: "has_to_look_up P (RPtr n T ar1 h) x"
          by simp_all
        moreover from rcall_inner [OF hd, of n h] l
        have "has_to_look_up P (RShared (Suc n) T ar h) x"
          by (rule look_step)
        ultimately show ?thesis by simp
      next
        case w: (Inr res)
        obtain p ar2 h2 where res: "res = (p, ar2, h2)" by (cases res)
        with w hd "4.prems"
        have t: "read_shared_tail (registry_of P) T nd p ar2 = Inl (UnregisteredPolymorphic x)"
          by (simp split: sum.splits prod.splits)
        from read_shared_tail_looks_up [OF t "4.prems"(1)]
        have "\<not> IsRegistered (registry_of P) x" and "looks_up (RTail T nd p ar2) x"
          by simp_all
        moreover from w res have "read_ptr P n T ar1 h = Inr (p, ar2, h2)"
          by simp
        from rcall_tail [OF hd this] have "rcall P (RShared (Suc n) T ar h) (RTail T nd p ar2)" .
        ultimately show ?thesis
          by (auto intro: look_step look_self)
      qed
    qed
  qed
next
  case (5 P n b i ar h)
  then show ?case by simp
next
  case (6 P n b i u ks ar h)
  from "6.prems" obtain v ar1 where r: "read_int ar = Inr (v, ar1)"
    and m: "read_members P n b (Suc i) ks ar1 (set_member h b i (VInt v)) =
             Inl (UnregisteredPolymorphic x)"
    by (auto simp: read_int_def split: sum.splits list.splits token.splits)
  from "6.IH" [OF r refl "6.prems"(1) m]
  have "\<not> IsRegistered (registry_of P) x"
    and l: "has_to_look_up P (RMembers n b (Suc i) ks ar1 (set_member h b i (VInt v))) x"
    by simp_all
  with look_step [OF rcall_int [OF r] l] show ?case
    by simp
next
  case (7 P n b i T u ks ar h)
  show ?case
  proof (cases "read_ptr P n T ar h")
    case (Inl e)
    with "7.prems" have "read_ptr P n T ar h = Inl (UnregisteredPolymorphic x)" by simp
    from "7.IH"(1) [OF "7.prems"(1) this]
    have "\<not> IsRegistered (registry_of P) x" and l: "has_to_look_up P (RPtr n T ar h) x"
      by simp_all
    with look_step [OF rcall_raw l] show ?thesis
      by simp
  next
    case (Inr res)
    obtain p ar1 h1 where res: "res = (p, ar1, h1)" by (cases res)
    with Inr have r: "read_ptr P n T ar h = Inr (p, ar1, h1)" by simp
    with "7.prems" have m: "read_members P n b (Suc i) ks ar1 (set_member h1 b i (VRaw T p)) =
        Inl (UnregisteredPolymorphic x)"
      by simp
    from "7.IH"(2) [OF r refl refl "7.prems"(1) m]
    have "\<not> IsRegistered (registry_of P) x"
      and l: "has_to_look_up P (RMembers n b (Suc i) ks ar1 (set_member h1 b i (VRaw T p))) x"
      by simp_all
    with look_step [OF rcall_raw_next [OF r] l] show ?thesis
      by simp
  qed
next
  case (8 P n b i T u ks ar h)
  show ?case
  proof (cases "read_shared_ptr P n T ar h")
    case (Inl e)
    with "8.prems" have "read_shared_ptr P n T ar h = Inl (UnregisteredPolymorphic x)" by simp
    from "8.IH"(1) [OF "8.prems"(1) this]
    have "\<not> IsRegistered (registry_of P) x" and l: "has_to_look_up P (RShared n T ar h) x"
      by simp_all
    with look_step [OF rcall_shared l] show ?thesis
      by simp
  next
    case (Inr res)
    obtain p ar1 h1 where res: "res = (p, ar1, h1)" by (cases res)
    with Inr have r: "read_shared_ptr P n T ar h = Inr (p, ar1, h1)" by simp
    with "8.prems" have m: "read_members P n b (Suc i) ks ar1 (set_member h1 b i (VShared T p)) =
        Inl (UnregisteredPolymorphic x)"
      by simp
    from "8.IH"(2) [OF r refl refl "8.prems"(1) m]
    have "\<not> IsRegistered (registry_of P) x"
      and l: "has_to_look_up P (RMembers n b (Suc i) ks ar1 (set_member h1 b i (VShared T p))) x"
      by simp_all
    with look_step [OF rcall_shared_next [OF r] l] show ?thesis
      by simp
  qed
qed

lemma read_raises_iff:
  assumes "casters_quiet (registry_of P)"
  shows "rfails P j (UnregisteredPolymorphic x) =
         (\<not> IsRegistered (registry_of P) x \<and> has_to_look_up P j x)"
proof
  assume f: "rfails P j (UnregisteredPolymorphic x)"
  show "\<not> IsRegistered (registry_of P) x \<and> has_to_look_up P j x"
  proof (cases j)
    case (RPtr n T ar h)
    with f raised_looked_up(1) [OF assms] show ?thesis by simp
  next
    case (RShared n T ar h)
    with f raised_looked_up(2) [OF assms] show ?thesis by simp
  next
    case (RMembers n b i ks ar h)
    with f raised_looked_up(3) [OF assms] show ?thesis by simp
  next
    case (RTail T nd p ar)
    with f read_shared_tail_looks_up [OF _ assms] show ?thesis
      by (auto intro: look_self)
  qed
next
  assume "\<not> IsRegistered (registry_of P) x \<and> has_to_look_up P j x"
  then obtain j' where "\<not> IsRegistered (registry_of P) x" "rtranclp (rcall P) j j'"
    "looks_up j' x"
    unfolding has_to_look_up_def by blast
  with looks_up_raised show "rfails P j (UnregisteredPolymorphic x)"
    by (blast intro: rcalls_propagate)
qed

section \<open>The claims on object graphs\<close>

subsection \<open>Cycles of shared pointers\<close>










subsection \<open>References of the exact type\<close>

text \<open>
  The static type of the reference is the dynamic type of its referent, the class is
  default-constructible, and the object has the members of its class.
\<close>

definition exact_ref :: "classes \<Rightarrow> heap \<Rightarrow> cname \<Rightarrow> addr \<Rightarrow> bool" where
  "exact_ref ct h T p \<longleftrightarrow>
     fst p < length h \<and> snd p = 0 \<and> dyn (h ! fst p) = T \<and>
     (\<exists>c. ct T = Some c \<and> constructible c \<and>
        list_all2 same_kind (contents (h ! fst p)) (members c))"

lemma exact_wf: "exact_ref (classes_of P) h T p \<Longrightarrow> wf_ref P h T p"
  by (auto simp: exact_ref_def wf_ref_def)

lemma exact_wf_refs:
  assumes "\<forall>(T, p) \<in> R. exact_ref (classes_of P) h T p"
  shows "wf_refs P h R"
  using assms exact_wf unfolding wf_refs_def by blast

lemma casters_fail_empty: "casters_fail Map.empty"
  by (simp add: casters_fail_def)

lemma casters_quiet_empty: "casters_quiet Map.empty"
  by (simp add: casters_quiet_def)

lemma wf_refs_Un: "wf_refs P h (A \<union> B) = (wf_refs P h A \<and> wf_refs P h B)"
  by (auto simp: wf_refs_def)

lemma save_load:
  assumes wf: "wf_refs P h (references h)" and cf: "casters_fail (registry_of P)"
    and m: "fuel_bound h \<le> m"
  shows "wf_refs P h (refs_of [VRaw T p]) \<Longrightarrow>
         \<exists>war p' rar h' f. write_ptr P h m T p (Archive_init True []) = Inr war \<and>
           read_ptr P m T (Archive_init False (stream war)) [] = Inr (p', rar, h') \<and>
           stream rar = [] \<and> ptr_rel f p p' \<and> isomorphic f h h'"
    and "wf_refs P h (refs_of [VShared T p]) \<Longrightarrow>
         \<exists>war p' rar h' f. write_shared_ptr P h m T p (Archive_init True []) = Inr war \<and>
           read_shared_ptr P m T (Archive_init False (stream war)) [] = Inr (p', rar, h') \<and>
           stream rar = [] \<and> ptr_rel f p p' \<and> isomorphic f h h'"
proof -
  show "\<exists>war p' rar h' f. write_ptr P h m T p (Archive_init True []) = Inr war \<and>
           read_ptr P m T (Archive_init False (stream war)) [] = Inr (p', rar, h') \<and>
           stream rar = [] \<and> ptr_rel f p p' \<and> isomorphic f h h'"
    if r: "wf_refs P h (refs_of [VRaw T p])"
  proof -
    from write_succeeds(1) [OF wf cf m r] obtain war where
      w: "write_ptr P h m T p (Archive_init True []) = Inr war"
      by blast
    from roundtrip(1) [OF wf r w] w show ?thesis
      by blast
  qed
  show "\<exists>war p' rar h' f. write_shared_ptr P h m T p (Archive_init True []) = Inr war \<and>
           read_shared_ptr P m T (Archive_init False (stream war)) [] = Inr (p', rar, h') \<and>
           stream rar = [] \<and> ptr_rel f p p' \<and> isomorphic f h h'"
    if r: "wf_refs P h (refs_of [VShared T p])"
  proof -
    from write_succeeds(2) [OF wf cf m r] obtain war where
      w: "write_shared_ptr P h m T p (Archive_init True []) = Inr war"
      by blast
    from roundtrip(2) [OF wf r w] w show ?thesis
      by blast
  qed
qed

subsection \<open>The stream of a new referent of another dynamic type\<close>

lemma write_ptr_names:
  assumes w: "write_ptr P h n T (Some a) ar = Inr war"
    and ty: "typeid_of h a = Inr D" and ne: "D \<noteq> T" and new: "ptr2nr ar = Map.empty"
  shows "\<exists>ts. stream war = stream ar @ TInt (- 3) # TStr D # ts"
proof (cases n)
  case 0
  with w show ?thesis by simp
next
  case (Suc n')
  from w Suc obtain ar1 b where
    hd: "write_ptr_head (registry_of P) (classes_of P) h T (Some a) ar = Inr (ar1, b)"
    by (auto split: sum.splits)
  with ty ne new have b: "b = Some (contents (h ! fst a))"
    and s1: "stream ar1 = stream ar @ [TInt (- 3), TStr D]"
    by (auto simp: write_ptr_head_def Let_def split: sum.splits if_splits)
  from w Suc hd b have "write_members P h n' (contents (h ! fst a)) ar1 = Inr war"
    by simp
  from write_extends(3) [OF this] obtain ts where "stream war = stream ar1 @ ts"
    unfolding extends_def by blast
  with s1 show ?thesis
    by simp
qed

lemma write_shared_names:
  assumes w: "write_shared_ptr P h n T (Some a) ar = Inr war"
    and ty: "typeid_of h a = Inr D" and ne: "D \<noteq> T"
    and new: "ptr2nr ar = Map.empty" "shared_ptr2nr ar = Map.empty"
  shows "\<exists>nd ts. stream war = stream ar @ TInt (- 1) # TBool nd # TInt (- 3) # TStr D # ts"
proof (cases n)
  case 0
  with w show ?thesis by simp
next
  case (Suc n')
  from w Suc obtain ar1 b where
    hd: "write_shared_head (registry_of P) h T (Some a) ar = Inr (ar1, b)"
    by (auto split: sum.splits)
  with ty new obtain nd k where b: "b = Some k"
    and s1: "stream ar1 = stream ar @ [TInt (- 1), TBool nd]" and p1: "ptr2nr ar1 = Map.empty"
    by (auto simp: write_shared_head_def Let_def split: sum.splits if_splits)
  from w Suc hd b obtain ar2 where w2: "write_ptr P h n' T (Some a) ar1 = Inr ar2"
    and war: "war = write_shared_tail k ar2"
    by (auto split: sum.splits)
  from write_ptr_names [OF w2 ty ne p1] obtain ts where
    s2: "stream ar2 = stream ar1 @ TInt (- 3) # TStr D # ts"
    by blast
  obtain rp nd' D' where k: "k = (rp, nd', D')"
    by (cases k)
  have "stream war = stream ar2 @ (if nd' then [TStr D'] else [])"
    unfolding war k by (simp add: write_shared_tail_def Let_def)
  with s1 s2 show ?thesis
    by simp
qed

lemma load_fails:
  assumes nr: "\<not> IsRegistered (registry_of P') D"
  shows "write_ptr P h n T (Some a) (Archive_init True []) = Inr war \<Longrightarrow>
         typeid_of h a = Inr D \<Longrightarrow> D \<noteq> T \<Longrightarrow>
         read_ptr P' (Suc m) T (Archive_init False (stream war)) h0 =
           Inl (UnregisteredPolymorphic D)"
    and "write_shared_ptr P h n T (Some a) (Archive_init True []) = Inr war \<Longrightarrow>
         typeid_of h a = Inr D \<Longrightarrow> D \<noteq> T \<Longrightarrow>
         read_shared_ptr P' (Suc (Suc m)) T (Archive_init False (stream war)) h0 =
           Inl (UnregisteredPolymorphic D)"
proof -
  assume w: "write_ptr P h n T (Some a) (Archive_init True []) = Inr war"
    and ty: "typeid_of h a = Inr D" and ne: "D \<noteq> T"
  have "ptr2nr (Archive_init True []) = Map.empty"
    by (simp add: Archive_init_def)
  from write_ptr_names [OF w ty ne this] obtain ts where
    "stream war = TInt (- 3) # TStr D # ts"
    by (auto simp: Archive_init_def)
  then have "stream (Archive_init False (stream war)) = TInt (- 3) # TStr D # ts"
    by (simp add: Archive_init_def)
  from read_ptr_unregistered(1) [OF nr this]
  show "read_ptr P' (Suc m) T (Archive_init False (stream war)) h0 =
          Inl (UnregisteredPolymorphic D)" .
next
  assume w: "write_shared_ptr P h n T (Some a) (Archive_init True []) = Inr war"
    and ty: "typeid_of h a = Inr D" and ne: "D \<noteq> T"
  have "ptr2nr (Archive_init True []) = Map.empty"
    "shared_ptr2nr (Archive_init True []) = Map.empty"
    by (simp_all add: Archive_init_def)
  from write_shared_names [OF w ty ne this] obtain nd ts where
    st: "stream war = TInt (- 1) # TBool nd # TInt (- 3) # TStr D # ts"
    by (auto simp: Archive_init_def)
  let ?ar = "Archive_init False (stream war)"
  let ?ar1 = "?ar\<lparr>stream := TInt (- 3) # TStr D # ts\<rparr>"
  have hd: "read_shared_head (registry_of P') T ?ar = Inr (Inr (nd, ?ar1))"
    using st by (simp add: read_shared_head_def read_int_def read_flag_def Archive_init_def)
  have "stream ?ar1 = TInt (- 3) # TStr D # ts"
    by simp
  from read_ptr_unregistered(1) [OF nr this]
  have "read_ptr P' (Suc m) T ?ar1 h0 = Inl (UnregisteredPolymorphic D)" .
  with hd show "read_shared_ptr P' (Suc (Suc m)) T ?ar h0 = Inl (UnregisteredPolymorphic D)"
    by simp
qed

subsection \<open>Two more programs\<close>

text \<open>
  The class \<open>Node\<close>, registered, without a default constructor.
\<close>

definition Node_info :: ClassArchiveInfo where
  "Node_info =
     \<lparr>creator = (\<lambda>T h. Inl (NotDefaultConstructible ''Node'')),
      upcaster = (\<lambda>T p. Inr p),
      downcaster = (\<lambda>T p. Inr p)\<rparr>"

definition Abstract_program :: program where
  "Abstract_program =
     \<lparr>registry_of = [''Node'' \<mapsto> Node_info],
      classes_of = [''Node'' \<mapsto> \<lparr>constructible = False, members = [VShared ''Node'' None]\<rparr>]\<rparr>"

lemma Node_exact:
  "\<forall>(T, p) \<in> references selfloop \<union> refs_of [VShared ''Node'' (Some (0, 0))].
     exact_ref (classes_of Node_program) selfloop T p"
  by (auto simp: references_def refs_of_def selfloop_def exact_ref_def Node_program_def)

lemma fuel_selfloop: "fuel_bound selfloop = 6"
  by (simp add: fuel_bound_def selfloop_def)

text \<open>
  An object that holds two raw pointers to one object of class \<open>Derived\<close>: one of the
  exact type and one of the type of its first base, which lies at offset 0.
\<close>

definition Holder_program :: program where
  "Holder_program =
     \<lparr>registry_of = [''Derived'' \<mapsto> Derived_info],
      classes_of =
        [''Derived'' \<mapsto> \<lparr>constructible = True, members = [VInt 0]\<rparr>,
         ''Holder'' \<mapsto> \<lparr>constructible = True,
                         members = [VRaw ''Derived'' None, VRaw ''Base1'' None]\<rparr>]\<rparr>"

definition Holder_heap :: heap where
  "Holder_heap =
     [\<lparr>dyn = ''Holder'',
       contents = [VRaw ''Derived'' (Some (1, 0)), VRaw ''Base1'' (Some (1, 0))]\<rparr>,
      \<lparr>dyn = ''Derived'', contents = [VInt 7]\<rparr>]"

definition Holder_stream :: "token list" where
  "Holder_stream =
     [TInt (- 1), TInt (- 1), TInt 7, TInt 1, TBool False, TStr ''Derived'']"














text \<open>
  The loaded node is the referent of two entries of \<^verbatim>\<open>nr2shared_ptr\<close>:
  \<^verbatim>\<open>std::shared_ptr<T>(p)\<close> has been executed twice for it, once for the successor and once
  for the pointer loaded. The two pointers hold the same address; the model does not say
  who owns the node.
\<close>

lemma selfloop_two_shared_pointers:
  "map_sum id (\<lambda>(p, rar, h). nr2shared_ptr rar)
     (read_shared_ptr Node_program 6 ''Node'' (Archive_init False selfloop_stream) []) =
     Inr [Some (0, 0), Some (0, 0)]"
  by code_simp

text \<open>
  Claim C6, amended. With closures that do not raise it themselves, a write raises
  \<open>UnregisteredPolymorphic\<close> for the name \<open>x\<close> exactly when it encounters a referent of the
  dynamic type \<open>x\<close>, other than the static type of the reference, with \<open>x\<close> not registered;
  and a read raises it for \<open>x\<close> exactly when it has to look up the name \<open>x\<close> and \<open>x\<close> is not
  registered. In a graph whose references all have the dynamic type of their referent as
  static type, with default-constructible classes, the save and the load of what it wrote
  succeed with an empty registry. Where the types differ and the dynamic type is not
  registered the save fails with the error; and the load of a stream that was saved with
  the registration, by a process without it, fails with the error at the referent saved.
\<close>

theorem unregistered_polymorphic_raised:
  "(casters_quiet (registry_of P) \<longrightarrow>
      (wrun P h j = Inl (UnregisteredPolymorphic x)) = encounters_unregistered P h j x) \<and>
   (casters_quiet (registry_of P) \<longrightarrow>
      rfails P rj (UnregisteredPolymorphic x) =
        (\<not> IsRegistered (registry_of P) x \<and> has_to_look_up P rj x)) \<and>
   (registry_of P = Map.empty \<and>
    (\<forall>(T', a) \<in> references h \<union> refs_of [VRaw T p]. exact_ref (classes_of P) h T' a) \<and>
    fuel_bound h \<le> m \<longrightarrow>
      (\<exists>war res. write_ptr P h m T p (Archive_init True []) = Inr war \<and>
         read_ptr P m T (Archive_init False (stream war)) [] = Inr res)) \<and>
   (registry_of P = Map.empty \<and>
    (\<forall>(T', a) \<in> references h \<union> refs_of [VShared T p]. exact_ref (classes_of P) h T' a) \<and>
    fuel_bound h \<le> m \<longrightarrow>
      (\<exists>war res. write_shared_ptr P h m T p (Archive_init True []) = Inr war \<and>
         read_shared_ptr P m T (Archive_init False (stream war)) [] = Inr res)) \<and>
   (typeid_of h a = Inr D \<and> D \<noteq> T \<and> \<not> IsRegistered (registry_of P) D \<longrightarrow>
      write_ptr P h (Suc n) T (Some a) ar = Inl (UnregisteredPolymorphic D) \<and>
      write_shared_ptr P h (Suc n) T (Some a) ar = Inl (UnregisteredPolymorphic D)) \<and>
   (write_ptr P h n T (Some a) (Archive_init True []) = Inr war \<and>
    typeid_of h a = Inr D \<and> D \<noteq> T \<and> \<not> IsRegistered (registry_of P') D \<longrightarrow>
      read_ptr P' (Suc m) T (Archive_init False (stream war)) h0 =
        Inl (UnregisteredPolymorphic D)) \<and>
   (write_shared_ptr P h n T (Some a) (Archive_init True []) = Inr war \<and>
    typeid_of h a = Inr D \<and> D \<noteq> T \<and> \<not> IsRegistered (registry_of P') D \<longrightarrow>
      read_shared_ptr P' (Suc (Suc m)) T (Archive_init False (stream war)) h0 =
        Inl (UnregisteredPolymorphic D))"
proof (intro conjI impI; (elim conjE)?)
  show "(wrun P h j = Inl (UnregisteredPolymorphic x)) = encounters_unregistered P h j x"
    if "casters_quiet (registry_of P)"
    using that by (rule write_raises_iff)
  show "rfails P rj (UnregisteredPolymorphic x) =
          (\<not> IsRegistered (registry_of P) x \<and> has_to_look_up P rj x)"
    if "casters_quiet (registry_of P)"
    using that by (rule read_raises_iff)
  show "\<exists>war res. write_ptr P h m T p (Archive_init True []) = Inr war \<and>
          read_ptr P m T (Archive_init False (stream war)) [] = Inr res"
    if "registry_of P = Map.empty"
      "\<forall>(T', a) \<in> references h \<union> refs_of [VRaw T p]. exact_ref (classes_of P) h T' a"
      "fuel_bound h \<le> m"
  proof -
    from exact_wf_refs [OF that(2)] have wf: "wf_refs P h (references h)"
      and r: "wf_refs P h (refs_of [VRaw T p])"
      by (simp_all add: wf_refs_Un)
    have cf: "casters_fail (registry_of P)"
      by (simp add: that(1) casters_fail_empty)
    from save_load(1) [OF wf cf that(3) r] show ?thesis
      by blast
  qed
  show "\<exists>war res. write_shared_ptr P h m T p (Archive_init True []) = Inr war \<and>
          read_shared_ptr P m T (Archive_init False (stream war)) [] = Inr res"
    if "registry_of P = Map.empty"
      "\<forall>(T', a) \<in> references h \<union> refs_of [VShared T p]. exact_ref (classes_of P) h T' a"
      "fuel_bound h \<le> m"
  proof -
    from exact_wf_refs [OF that(2)] have wf: "wf_refs P h (references h)"
      and r: "wf_refs P h (refs_of [VShared T p])"
      by (simp_all add: wf_refs_Un)
    have cf: "casters_fail (registry_of P)"
      by (simp add: that(1) casters_fail_empty)
    from save_load(2) [OF wf cf that(3) r] show ?thesis
      by blast
  qed
  show "write_ptr P h (Suc n) T (Some a) ar = Inl (UnregisteredPolymorphic D)"
    if "typeid_of h a = Inr D" "D \<noteq> T" "\<not> IsRegistered (registry_of P) D"
    using that by (rule write_unregistered_referent(1))
  show "write_shared_ptr P h (Suc n) T (Some a) ar = Inl (UnregisteredPolymorphic D)"
    if "typeid_of h a = Inr D" "D \<noteq> T" "\<not> IsRegistered (registry_of P) D"
    using that by (rule write_unregistered_referent(2))
  show "read_ptr P' (Suc m) T (Archive_init False (stream war)) h0 =
          Inl (UnregisteredPolymorphic D)"
    if "write_ptr P h n T (Some a) (Archive_init True []) = Inr war"
      "typeid_of h a = Inr D" "D \<noteq> T" "\<not> IsRegistered (registry_of P') D"
    using load_fails(1) [OF that(4) that(1,2,3)] .
  show "read_shared_ptr P' (Suc (Suc m)) T (Archive_init False (stream war)) h0 =
          Inl (UnregisteredPolymorphic D)"
    if "write_shared_ptr P h n T (Some a) (Archive_init True []) = Inr war"
      "typeid_of h a = Inr D" "D \<noteq> T" "\<not> IsRegistered (registry_of P') D"
    using load_fails(2) [OF that(4) that(1,2,3)] .
qed

lemma Derived_written:
  "write_ptr Derived_program Derived_heap 6 ''Base2'' (Some (0, 8)) (Archive_init True []) =
     Inr ((Archive_init True [TInt (- 3), TStr ''Derived'', TInt 7])
            \<lparr>ptr2nr := [(0, 0) \<mapsto> 0], ptr_count := 1\<rparr>)"
  by (simp add: write_ptr_head_def typeid_of_def Derived_heap_def reg_ptr_of_def
      Derived_program_def IsRegistered_def GetArchiveRegister_def Derived_info_def
      Archive_init_def emit_def eval_nat_numeral)

theorem unregistered_polymorphic_raised_witness:
  "encounters_unregistered (Derived_program\<lparr>registry_of := Map.empty\<rparr>) Derived_heap
     (WPtr (Suc 0) ''Base2'' (Some (0, 8)) (Archive_init True [])) ''Derived'' \<and>
   has_to_look_up (Derived_program\<lparr>registry_of := Map.empty\<rparr>)
     (RPtr (Suc 0) ''Base2'' (Archive_init False [TInt (- 3), TStr ''Derived'', TInt 7]) [])
     ''Derived'' \<and>
   (\<exists>war res.
      write_shared_ptr Node_program selfloop 6 ''Node'' (Some (0, 0)) (Archive_init True []) =
        Inr war \<and>
      read_shared_ptr Node_program 6 ''Node'' (Archive_init False (stream war)) [] = Inr res) \<and>
   write_ptr (Derived_program\<lparr>registry_of := Map.empty\<rparr>) Derived_heap (Suc 0) ''Base2''
     (Some (0, 8)) (Archive_init True []) = Inl (UnregisteredPolymorphic ''Derived'') \<and>
   read_ptr (Derived_program\<lparr>registry_of := Map.empty\<rparr>) (Suc 0) ''Base2''
     (Archive_init False [TInt (- 3), TStr ''Derived'', TInt 7]) [] =
     Inl (UnregisteredPolymorphic ''Derived'')"
proof -
  let ?P = "Derived_program\<lparr>registry_of := Map.empty\<rparr>"
  let ?war = "(Archive_init True [TInt (- 3), TStr ''Derived'', TInt 7])
                \<lparr>ptr2nr := [(0, 0) \<mapsto> 0], ptr_count := 1\<rparr>"
  have q: "casters_quiet (registry_of ?P)"
    by (simp add: casters_quiet_empty)
  have 1: "typeid_of Derived_heap (0, 8) = Inr ''Derived''" "''Derived'' \<noteq> ''Base2''"
    "\<not> IsRegistered (registry_of ?P) ''Derived''"
    by (simp_all add: typeid_of_def Derived_heap_def IsRegistered_def)
  note t = unregistered_polymorphic_raised
    [where P = ?P and h = Derived_heap and a = "(0, 8)" and D = "''Derived''"
       and T = "''Base2''" and n = 0 and ar = "Archive_init True []"
       and j = "WPtr (Suc 0) ''Base2'' (Some (0, 8)) (Archive_init True [])"
       and x = "''Derived''"
       and rj = "RPtr (Suc 0) ''Base2''
                   (Archive_init False [TInt (- 3), TStr ''Derived'', TInt 7]) []"]
  have d: "write_ptr ?P Derived_heap (Suc 0) ''Base2'' (Some (0, 8)) (Archive_init True []) =
        Inl (UnregisteredPolymorphic ''Derived'')"
    using t [THEN conjunct2, THEN conjunct2, THEN conjunct2, THEN conjunct2, THEN conjunct1] 1
    by simp
  have a: "encounters_unregistered ?P Derived_heap
      (WPtr (Suc 0) ''Base2'' (Some (0, 8)) (Archive_init True [])) ''Derived''"
    using t [THEN conjunct1] q d by simp
  note u = unregistered_polymorphic_raised
    [where P = Derived_program and h = Derived_heap and a = "(0, 8)" and D = "''Derived''"
       and T = "''Base2''" and n = 6 and war = ?war and P' = ?P and m = 0 and h0 = "[]"]
  have "stream ?war = [TInt (- 3), TStr ''Derived'', TInt 7]"
    by (simp add: Archive_init_def)
  with u [THEN conjunct2, THEN conjunct2, THEN conjunct2, THEN conjunct2, THEN conjunct2,
      THEN conjunct1] Derived_written 1
  have e: "read_ptr ?P (Suc 0) ''Base2''
      (Archive_init False [TInt (- 3), TStr ''Derived'', TInt 7]) [] =
      Inl (UnregisteredPolymorphic ''Derived'')"
    by simp
  have b: "has_to_look_up ?P
      (RPtr (Suc 0) ''Base2'' (Archive_init False [TInt (- 3), TStr ''Derived'', TInt 7]) [])
      ''Derived''"
    using t [THEN conjunct2, THEN conjunct1] q e by simp
  note s = unregistered_polymorphic_raised
    [where P = Node_program and h = selfloop and T = "''Node''" and p = "Some (0, 0)"
       and m = 6]
  have "registry_of Node_program = Map.empty"
    by (simp add: Node_program_def)
  with s [THEN conjunct2, THEN conjunct2, THEN conjunct2, THEN conjunct1] Node_exact
    fuel_selfloop
  have c: "\<exists>war res.
      write_shared_ptr Node_program selfloop 6 ''Node'' (Some (0, 0)) (Archive_init True []) =
        Inr war \<and>
      read_shared_ptr Node_program 6 ''Node'' (Archive_init False (stream war)) [] = Inr res"
    by simp
  from a b c d e show ?thesis
    by (intro conjI)
qed

text \<open>
  Three scenarios. A second raw reference to a node of an unregistered class: the reader
  meets the name of the class, which is not in the registry, and succeeds. An object with
  a pointer of the exact type and a pointer of the type of the first base to one object of
  a registered class: saved with the registration, it is loaded without any, although the
  second pointer has a static type other than the dynamic one. A node of a class without
  a default constructor, not registered, written through a pointer of its own type: the
  save fails.
\<close>

theorem unlooked_name_counterexample:
  "map_sum id (\<lambda>(p, ar, h). (p, stream ar))
     (read_ptr Node_program (Suc 0) ''Node''
        ((Archive_init False [TInt 0, TBool False, TStr ''Node''])\<lparr>nr2ptr := [(0, 0)]\<rparr>) selfloop)
     = Inr (Some (0, 0), []) \<and>
   \<not> IsRegistered (registry_of Node_program) ''Node'' \<and>
   map_sum id stream
     (write_ptr Holder_program Holder_heap 8 ''Holder'' (Some (0, 0)) (Archive_init True []))
     = Inr Holder_stream \<and>
   map_sum id (\<lambda>(p, ar, h). (p, stream ar, h))
     (read_ptr (Holder_program\<lparr>registry_of := Map.empty\<rparr>) 8 ''Holder''
        (Archive_init False Holder_stream) [])
     = Inr (Some (0, 0), [], Holder_heap) \<and>
   map_sum id stream
     (write_ptr (Abstract_program\<lparr>registry_of := Map.empty\<rparr>) selfloop 6 ''Node'' (Some (0, 0))
        (Archive_init True []))
     = Inl (NotDefaultConstructible ''Node'')"
  by code_simp

end
